theory Spec2Isabelle
  imports Main "HOL-Library.Char_ord" "HOL-Library.List_Lexorder" "HOL-Library.Word"
begin

section \<open>The AVL tree of NavigateX.cpp\<close>

text \<open>
  \<^verbatim>\<open>struct AVLNode { string key; int value; AVLNode* left; AVLNode* right; int height; }\<close>.
  The tree owns its nodes exclusively, so a pointer to a node is the subtree itself and
  \<^verbatim>\<open>nullptr\<close> is \<open>Null\<close>. Keys are \<^verbatim>\<open>std::string\<close>s compared with \<^verbatim>\<open><\<close>, the
  lexicographic order on bytes: the order of \<open>string\<close> given by Char_ord and
  List_Lexorder. The value is a 32-bit \<^verbatim>\<open>int\<close> that the tree stores and returns and never
  computes with. Heights are \<^verbatim>\<open>int\<close>s; they are modelled as unbounded integers (a
  height that leaves 32 bits would need more nodes than fit in memory).

  A function that dereferences a pointer returns an \<open>option\<close>: \<open>None\<close> stands for the
  dereference of \<^verbatim>\<open>nullptr\<close>, which the C++ program does not survive.
\<close>

datatype AVLNode =
  Null
  | Node (key: string) (val: "32 word") (left: AVLNode) (right: AVLNode) (height: int)

fun getHeight :: "AVLNode \<Rightarrow> int" where
  "getHeight Null = 0"
| "getHeight (Node k v l r h) = h"

fun getBalance :: "AVLNode \<Rightarrow> int" where
  "getBalance Null = 0"
| "getBalance (Node k v l r h) = getHeight l - getHeight r"

text \<open>\<^verbatim>\<open>rightRotate(y)\<close>: \<^verbatim>\<open>x = y->left\<close> is dereferenced, so \<open>y\<close> and its left child must
  be nodes. The height of \<open>y\<close> is recomputed first, then that of \<open>x\<close>.\<close>

fun rightRotate :: "AVLNode \<Rightarrow> AVLNode option" where
  "rightRotate (Node yk yv (Node xk xv xl T2 xh) yr yh) =
     (let y = Node yk yv T2 yr (max (getHeight T2) (getHeight yr) + 1);
          x = Node xk xv xl y (max (getHeight xl) (getHeight y) + 1)
      in Some x)"
| "rightRotate (Node yk yv Null yr yh) = None"
| "rightRotate Null = None"

fun leftRotate :: "AVLNode \<Rightarrow> AVLNode option" where
  "leftRotate (Node xk xv xl (Node yk yv T2 yr yh) xh) =
     (let x = Node xk xv xl T2 (max (getHeight xl) (getHeight T2) + 1);
          y = Node yk yv x yr (max (getHeight x) (getHeight yr) + 1)
      in Some y)"
| "leftRotate (Node xk xv xl Null xh) = None"
| "leftRotate Null = None"

text \<open>The second half of \<^verbatim>\<open>insertHelper\<close> (from the height update to the final
  \<^verbatim>\<open>return node\<close>), run on the node whose child has just been replaced. The four tests
  of the source are: left-left, right-right, left-right, right-left; the first and third
  read \<^verbatim>\<open>node->left->key\<close> once \<open>balance > 1\<close>, the second and fourth read
  \<^verbatim>\<open>node->right->key\<close> once \<open>balance < -1\<close>.\<close>

fun insertRebalance :: "AVLNode \<Rightarrow> string \<Rightarrow> AVLNode option" where
  "insertRebalance Null k = None"
| "insertRebalance (Node nk nv l r h) k =
     (let h' = 1 + max (getHeight l) (getHeight r);
          node = Node nk nv l r h';
          balance = getBalance node
      in if balance > 1 then
           (case l of
              Null \<Rightarrow> None
            | Node lk lv ll lr lh \<Rightarrow>
                if k < lk then rightRotate node
                else if k > lk then
                  (case leftRotate l of
                     None \<Rightarrow> None
                   | Some l' \<Rightarrow> rightRotate (Node nk nv l' r h'))
                else Some node)
         else if balance < - 1 then
           (case r of
              Null \<Rightarrow> None
            | Node rk rv rl rr rh \<Rightarrow>
                if k > rk then leftRotate node
                else if k < rk then
                  (case rightRotate r of
                     None \<Rightarrow> None
                   | Some r' \<Rightarrow> leftRotate (Node nk nv l r' h'))
                else Some node)
         else Some node)"

fun insertHelper :: "AVLNode \<Rightarrow> string \<Rightarrow> 32 word \<Rightarrow> AVLNode option" where
  "insertHelper Null k v = Some (Node k v Null Null 1)"
| "insertHelper (Node nk nv l r h) k v =
     (if k < nk then
        (case insertHelper l k v of
           None \<Rightarrow> None
         | Some l' \<Rightarrow> insertRebalance (Node nk nv l' r h) k)
      else if k > nk then
        (case insertHelper r k v of
           None \<Rightarrow> None
         | Some r' \<Rightarrow> insertRebalance (Node nk nv l r' h) k)
      else Some (Node nk v l r h))"

text \<open>\<^verbatim>\<open>minValueNode\<close> walks left from a node that is not null.\<close>

fun minValueNode :: "AVLNode \<Rightarrow> AVLNode option" where
  "minValueNode Null = None"
| "minValueNode (Node k v Null r h) = Some (Node k v Null r h)"
| "minValueNode (Node k v (Node lk lv ll lr lh) r h) = minValueNode (Node lk lv ll lr lh)"

text \<open>The second half of \<^verbatim>\<open>deleteHelper\<close>, from \<^verbatim>\<open>if (!node) return node;\<close> on:
  the height update and the four tests on the balance factors.\<close>

fun deleteRebalance :: "AVLNode \<Rightarrow> AVLNode option" where
  "deleteRebalance Null = Some Null"
| "deleteRebalance (Node nk nv l r h) =
     (let h' = 1 + max (getHeight l) (getHeight r);
          node = Node nk nv l r h';
          balance = getBalance node
      in if balance > 1 \<and> getBalance l \<ge> 0 then rightRotate node
         else if balance > 1 \<and> getBalance l < 0 then
           (case leftRotate l of
              None \<Rightarrow> None
            | Some l' \<Rightarrow> rightRotate (Node nk nv l' r h'))
         else if balance < - 1 \<and> getBalance r \<le> 0 then leftRotate node
         else if balance < - 1 \<and> getBalance r > 0 then
           (case rightRotate r of
              None \<Rightarrow> None
            | Some r' \<Rightarrow> leftRotate (Node nk nv l r' h'))
         else Some node)"

text \<open>\<^verbatim>\<open>deleteHelper\<close>. A node with at most one child is replaced by that child
  (\<^verbatim>\<open>*node = *temp\<close>) or by \<^verbatim>\<open>nullptr\<close>; a node with two children takes the key and
  value of the leftmost node of its right subtree, and that key is deleted from the right
  subtree.\<close>

fun deleteHelper :: "AVLNode \<Rightarrow> string \<Rightarrow> AVLNode option" where
  "deleteHelper Null k = Some Null"
| "deleteHelper (Node nk nv l r h) k =
     (if k < nk then
        (case deleteHelper l k of
           None \<Rightarrow> None
         | Some l' \<Rightarrow> deleteRebalance (Node nk nv l' r h))
      else if k > nk then
        (case deleteHelper r k of
           None \<Rightarrow> None
         | Some r' \<Rightarrow> deleteRebalance (Node nk nv l r' h))
      else if l = Null \<or> r = Null then
        deleteRebalance (if l \<noteq> Null then l else r)
      else
        (case minValueNode r of
           None \<Rightarrow> None
         | Some temp \<Rightarrow>
             (case deleteHelper r (key temp) of
                None \<Rightarrow> None
              | Some r' \<Rightarrow> deleteRebalance (Node (key temp) (val temp) l r' h))))"

fun searchHelper :: "AVLNode \<Rightarrow> string \<Rightarrow> AVLNode" where
  "searchHelper Null k = Null"
| "searchHelper (Node nk nv l r h) k =
     (if nk = k then Node nk nv l r h
      else if k < nk then searchHelper l k
      else searchHelper r k)"

fun inorderHelper :: "AVLNode \<Rightarrow> (string \<times> 32 word) list \<Rightarrow> (string \<times> 32 word) list" where
  "inorderHelper Null result = result"
| "inorderHelper (Node k v l r h) result =
     inorderHelper r (inorderHelper l result @ [(k, v)])"

subsection \<open>The public operations of class AVLTree\<close>

text \<open>The state of an \<^verbatim>\<open>AVLTree\<close> is its root. \<open>search\<close> returns the value found, or
  \<open>None\<close> for the null pointer.\<close>

definition search :: "AVLNode \<Rightarrow> string \<Rightarrow> 32 word option" where
  "search root k = (case searchHelper root k of Null \<Rightarrow> None | Node nk nv l r h \<Rightarrow> Some nv)"

definition insert_avl :: "AVLNode \<Rightarrow> string \<Rightarrow> 32 word \<Rightarrow> AVLNode option" where
  "insert_avl root k v = insertHelper root k v"

text \<open>\<open>remove\<close> returns the new root and the boolean result.\<close>

definition remove_avl :: "AVLNode \<Rightarrow> string \<Rightarrow> (bool \<times> AVLNode) option" where
  "remove_avl root k =
     (if search root k = None then Some (False, root)
      else (case deleteHelper root k of
              None \<Rightarrow> None
            | Some root' \<Rightarrow> Some (True, root')))"

definition inorderTraversal :: "AVLNode \<Rightarrow> (string \<times> 32 word) list" where
  "inorderTraversal root = inorderHelper root []"

text \<open>A tree state is what a sequence of \<open>insert\<close> and \<open>remove\<close> calls makes of the empty
  tree of the constructor.\<close>

datatype avl_op = Insert string "32 word" | Remove string

fun apply_avl_op :: "AVLNode \<Rightarrow> avl_op \<Rightarrow> AVLNode option" where
  "apply_avl_op t (Insert k v) = insert_avl t k v"
| "apply_avl_op t (Remove k) = map_option snd (remove_avl t k)"

fun run_avl :: "AVLNode \<Rightarrow> avl_op list \<Rightarrow> AVLNode option" where
  "run_avl t [] = Some t"
| "run_avl t (x # xs) =
     (case apply_avl_op t x of None \<Rightarrow> None | Some t' \<Rightarrow> run_avl t' xs)"

subsection \<open>Invariants\<close>

text \<open>The height of a tree as a shape, against which the stored field is checked.\<close>

fun depth :: "AVLNode \<Rightarrow> int" where
  "depth Null = 0"
| "depth (Node k v l r h) = 1 + max (depth l) (depth r)"

fun avl :: "AVLNode \<Rightarrow> bool" where
  "avl Null = True"
| "avl (Node k v l r h) =
     (avl l \<and> avl r \<and> \<bar>depth l - depth r\<bar> \<le> 1 \<and>
      h = 1 + max (getHeight l) (getHeight r))"

fun inorder :: "AVLNode \<Rightarrow> (string \<times> 32 word) list" where
  "inorder Null = []"
| "inorder (Node k v l r h) = inorder l @ (k, v) # inorder r"

definition bst :: "AVLNode \<Rightarrow> bool" where
  "bst t = sorted_wrt (<) (map fst (inorder t))"

text \<open>The shape of a tree with its stored heights: everything but the values.\<close>

fun shape :: "AVLNode \<Rightarrow> AVLNode" where
  "shape Null = Null"
| "shape (Node k v l r h) = Node k 0 (shape l) (shape r) h"

subsection \<open>The balance invariant is preserved\<close>


fun tilt :: "string \<Rightarrow> AVLNode \<Rightarrow> bool" where
  "tilt k Null = False"
| "tilt k (Node nk nv l r h) =
     (l = Null \<and> r = Null \<or> k < nk \<and> depth l = depth r + 1 \<or> nk < k \<and> depth r = depth l + 1)"

definition ins_inv :: "string \<Rightarrow> AVLNode \<Rightarrow> AVLNode \<Rightarrow> bool" where
  "ins_inv k t t' = (avl t' \<and> (depth t' = depth t \<or> depth t' = depth t + 1 \<and> tilt k t'))"

lemma depth_nonneg: "0 \<le> depth t"
  by (induction t) auto

lemma depth_Null_iff: "depth t = 0 \<longleftrightarrow> t = Null"
proof (cases t)
  case (Node k v l r h)
  then show ?thesis using depth_nonneg[of l] depth_nonneg[of r] by auto
qed simp

lemma avl_getHeight: "avl t \<Longrightarrow> getHeight t = depth t"
  by (induction t) auto

lemma insertRebalance_left:
  assumes "avl l" "avl r" "\<bar>depth l - depth r\<bar> \<le> 1" "ins_inv k l l'" "k < nk"
  shows "\<exists>t'. insertRebalance (Node nk nv l' r h) k = Some t' \<and> ins_inv k (Node nk nv l r h0) t'"
proof (cases "depth l' - depth r \<le> 1")
  case True
  with assms show ?thesis
    using depth_nonneg[of l]
    by (auto simp: ins_inv_def avl_getHeight Let_def)
next
  case False
  with assms have d: "depth l' = depth r + 2" "avl l'" "tilt k l'" "depth l = depth r + 1"
    by (auto simp: ins_inv_def)
  then obtain lk lv ll lr lh where l': "l' = Node lk lv ll lr lh"
    by (cases l') auto
  show ?thesis
  proof (cases "k < lk")
    case True
    with d l' assms(2) show ?thesis
      using depth_nonneg[of r] depth_Null_iff[of ll] depth_Null_iff[of lr]
      by (auto simp: ins_inv_def avl_getHeight Let_def)
  next
    case False
    with d l' have "lk < k" "depth lr = depth ll + 1"
      using depth_nonneg[of r] depth_Null_iff[of ll] depth_Null_iff[of lr] by auto
    then obtain a b c d e where "lr = Node a b c d e"
      using depth_nonneg[of ll] by (cases lr) auto
    with d l' assms(2) \<open>lk < k\<close> \<open>depth lr = depth ll + 1\<close> show ?thesis
      by (auto simp: ins_inv_def avl_getHeight Let_def)
  qed
qed


lemma insertRebalance_right:
  assumes "avl l" "avl r" "\<bar>depth l - depth r\<bar> \<le> 1" "ins_inv k r r'" "nk < k"
  shows "\<exists>t'. insertRebalance (Node nk nv l r' h) k = Some t' \<and> ins_inv k (Node nk nv l r h0) t'"
proof (cases "depth r' - depth l \<le> 1")
  case True
  with assms show ?thesis
    using depth_nonneg[of r]
    by (auto simp: ins_inv_def avl_getHeight Let_def)
next
  case False
  with assms have d: "depth r' = depth l + 2" "avl r'" "tilt k r'" "depth r = depth l + 1"
    by (auto simp: ins_inv_def)
  then obtain rk rv rl rr rh where r': "r' = Node rk rv rl rr rh"
    by (cases r') auto
  show ?thesis
  proof (cases "rk < k")
    case True
    with d r' assms(1) show ?thesis
      using depth_nonneg[of l] depth_Null_iff[of rl] depth_Null_iff[of rr]
      by (auto simp: ins_inv_def avl_getHeight Let_def)
  next
    case False
    with d r' have "k < rk" "depth rl = depth rr + 1"
      using depth_nonneg[of l] depth_Null_iff[of rl] depth_Null_iff[of rr] by auto
    then obtain a b c d e where "rl = Node a b c d e"
      using depth_nonneg[of rr] by (cases rl) auto
    with d r' assms(1) \<open>k < rk\<close> \<open>depth rl = depth rr + 1\<close> show ?thesis
      by (auto simp: ins_inv_def avl_getHeight Let_def)
  qed
qed

lemma insertHelper_inv:
  "avl t \<Longrightarrow> \<exists>t'. insertHelper t k v = Some t' \<and> ins_inv k t t'"
proof (induction t)
  case Null
  show ?case by (simp add: ins_inv_def)
next
  case (Node nk nv l r h)
  from Node.prems have a: "avl l" "avl r" "\<bar>depth l - depth r\<bar> \<le> 1"
    by auto
  consider "k < nk" | "nk < k" | "k = nk" by fastforce
  then show ?case
  proof cases
    case 1
    from Node.IH(1)[OF a(1)] obtain l' where l': "insertHelper l k v = Some l'" "ins_inv k l l'"
      by blast
    from insertRebalance_left[OF a l'(2) 1, of nv h h] l'(1) 1 show ?thesis
      by simp
  next
    case 2
    from Node.IH(2)[OF a(2)] obtain r' where r': "insertHelper r k v = Some r'" "ins_inv k r r'"
      by blast
    from insertRebalance_right[OF a r'(2) 2, of nv h h] r'(1) 2 show ?thesis
      by auto
  next
    case 3
    with Node.prems show ?thesis by (simp add: ins_inv_def)
  qed
qed

lemma deleteRebalance_inv:
  assumes "avl l" "avl r" "\<bar>depth l - depth r\<bar> \<le> 2"
  shows "\<exists>t'. deleteRebalance (Node nk nv l r h) = Some t' \<and> avl t' \<and>
           (if \<bar>depth l - depth r\<bar> \<le> 1 then depth t' = 1 + max (depth l) (depth r)
            else depth t' = max (depth l) (depth r) \<or> depth t' = 1 + max (depth l) (depth r))"
proof -
  consider "\<bar>depth l - depth r\<bar> \<le> 1" | "depth l = depth r + 2" | "depth r = depth l + 2"
    using assms(3) by linarith
  then show ?thesis
  proof cases
    case 1
    with assms show ?thesis by (auto simp: avl_getHeight Let_def)
  next
    case 2
    then obtain lk lv ll lr lh where l: "l = Node lk lv ll lr lh"
      using depth_nonneg[of r] by (cases l) auto
    show ?thesis
    proof (cases "depth ll \<ge> depth lr")
      case True
      with 2 l assms show ?thesis
        by (auto simp: avl_getHeight Let_def)
    next
      case False
      then obtain a b c d e where "lr = Node a b c d e"
        using depth_nonneg[of ll] by (cases lr) auto
      with False 2 l assms show ?thesis
        by (auto simp: avl_getHeight Let_def)
    qed
  next
    case 3
    then obtain rk rv rl rr rh where r: "r = Node rk rv rl rr rh"
      using depth_nonneg[of l] by (cases r) auto
    show ?thesis
    proof (cases "depth rl \<le> depth rr")
      case True
      with 3 r assms show ?thesis
        by (auto simp: avl_getHeight Let_def)
    next
      case False
      then obtain a b c d e where "rl = Node a b c d e"
        using depth_nonneg[of rr] by (cases rl) auto
      with False 3 r assms show ?thesis
        by (auto simp: avl_getHeight Let_def)
    qed
  qed
qed

lemma deleteRebalance_avl:
  "avl t \<Longrightarrow> deleteRebalance t = Some t"
  by (cases t) (auto simp: avl_getHeight Let_def)

lemma minValueNode_Some:
  "t \<noteq> Null \<Longrightarrow> \<exists>k v r h. minValueNode t = Some (Node k v Null r h)"
  by (induction t rule: minValueNode.induct) auto

definition del_inv :: "AVLNode \<Rightarrow> AVLNode \<Rightarrow> bool" where
  "del_inv t t' = (avl t' \<and> (depth t' = depth t \<or> depth t' = depth t - 1))"

lemma deleteHelper_inv:
  "avl t \<Longrightarrow> \<exists>t'. deleteHelper t k = Some t' \<and> del_inv t t'"
proof (induction t k rule: deleteHelper.induct)
  case (1 k)
  show ?case by (simp add: del_inv_def)
next
  case (2 nk nv l r h k)
  from "2.prems" have a: "avl l" "avl r" "\<bar>depth l - depth r\<bar> \<le> 1"
    by auto
  consider "k < nk" | "nk < k" | "k = nk" "l = Null \<or> r = Null" | "k = nk" "l \<noteq> Null" "r \<noteq> Null"
    by fastforce
  then show ?case
  proof cases
    case 1
    from "2.IH"(1)[OF 1 a(1)] obtain l' where l': "deleteHelper l k = Some l'" "del_inv l l'"
      by blast
    then have "\<bar>depth l' - depth r\<bar> \<le> 2" "avl l'" using a by (auto simp: del_inv_def)
    from deleteRebalance_inv[OF this(2) a(2) this(1), of nk nv h] l' a 1 show ?thesis
      by (auto simp: del_inv_def split: if_splits)
  next
    case 2
    then have nlt: "\<not> k < nk" by auto
    from "2.IH"(2)[OF nlt 2 a(2)] obtain r' where r': "deleteHelper r k = Some r'" "del_inv r r'"
      by blast
    then have "\<bar>depth l - depth r'\<bar> \<le> 2" "avl r'" using a by (auto simp: del_inv_def)
    from deleteRebalance_inv[OF a(1) this(2) this(1), of nk nv h] r' a 2 nlt show ?thesis
      by (auto simp: del_inv_def split: if_splits)
  next
    case 3
    with a show ?thesis
      using depth_nonneg[of l] depth_nonneg[of r]
      by (auto simp: deleteRebalance_avl del_inv_def)
  next
    case 4
    from minValueNode_Some[OF 4(3)] obtain mk mv mr mh where
      m: "minValueNode r = Some (Node mk mv Null mr mh)" by blast
    have c: "\<not> k < nk" "\<not> nk < k" "\<not> (l = Null \<or> r = Null)" using 4 by auto
    from "2.IH"(3)[OF c m a(2)] obtain r' where r': "deleteHelper r mk = Some r'" "del_inv r r'"
      by auto
    then have "\<bar>depth l - depth r'\<bar> \<le> 2" "avl r'" using a by (auto simp: del_inv_def)
    from deleteRebalance_inv[OF a(1) this(2) this(1), of mk mv h] r' a 4 m show ?thesis
      by (auto simp: del_inv_def split: if_splits)
  qed
qed


subsection \<open>The in-order sequence and the search order\<close>

lemma inorderHelper_inorder: "inorderHelper t acc = acc @ inorder t"
  by (induction t arbitrary: acc) auto

lemma inorderTraversal_inorder: "inorderTraversal t = inorder t"
  by (simp add: inorderTraversal_def inorderHelper_inorder)

lemma inorder_rightRotate: "rightRotate t = Some t' \<Longrightarrow> inorder t' = inorder t"
  by (induction t rule: rightRotate.induct) (auto simp: Let_def)

lemma inorder_leftRotate: "leftRotate t = Some t' \<Longrightarrow> inorder t' = inorder t"
  by (induction t rule: leftRotate.induct) (auto simp: Let_def)

lemma inorder_insertRebalance:
  "insertRebalance t k = Some t' \<Longrightarrow> inorder t' = inorder t"
  by (cases t)
    (auto simp: Let_def split: if_splits AVLNode.splits option.splits
          dest!: inorder_rightRotate inorder_leftRotate)

lemma inorder_deleteRebalance:
  "deleteRebalance t = Some t' \<Longrightarrow> inorder t' = inorder t"
  by (cases t)
    (auto simp: Let_def split: if_splits option.splits
          dest!: inorder_rightRotate inorder_leftRotate)

definition entries :: "AVLNode \<Rightarrow> (string \<times> 32 word) set" where
  "entries t = set (inorder t)"

definition keys :: "AVLNode \<Rightarrow> string set" where
  "keys t = fst ` set (inorder t)"

lemma bst_Node:
  "bst (Node k v l r h) \<longleftrightarrow> bst l \<and> bst r \<and> (\<forall>x \<in> keys l. x < k) \<and> (\<forall>x \<in> keys r. k < x)"
  by (fastforce simp: bst_def keys_def sorted_wrt_append intro: less_trans)

lemma bst_Null: "bst Null"
  by (simp add: bst_def)

lemma keys_Node: "keys (Node k v l r h) = keys l \<union> {k} \<union> keys r"
  by (auto simp: keys_def)

lemma keys_Null: "keys Null = {}"
  by (simp add: keys_def)

lemma entries_Node: "entries (Node k v l r h) = entries l \<union> {(k, v)} \<union> entries r"
  by (auto simp: entries_def)

lemma entries_Null: "entries Null = {}"
  by (simp add: entries_def)

lemma keys_entries: "keys t = fst ` entries t"
  by (simp add: keys_def entries_def)

lemma bst_eq: "inorder t' = inorder t \<Longrightarrow> bst t' = bst t"
  by (simp add: bst_def)

lemma search_entries:
  "bst t \<Longrightarrow> search t k = Some v \<longleftrightarrow> (k, v) \<in> entries t"
proof (induction t)
  case Null
  show ?case by (simp add: search_def entries_Null)
next
  case (Node nk nv l r h)
  then have IH: "search l k = Some v \<longleftrightarrow> (k, v) \<in> entries l" "search r k = Some v \<longleftrightarrow> (k, v) \<in> entries r"
    and o: "\<forall>x \<in> keys l. x < nk" "\<forall>x \<in> keys r. nk < x"
    by (auto simp: bst_Node)
  have kl: "(k, v) \<in> entries l \<Longrightarrow> k < nk" and kr: "(k, v) \<in> entries r \<Longrightarrow> nk < k"
    using o by (force simp: keys_entries)+
  show ?case
  proof (cases "nk = k")
    case True
    with kl kr show ?thesis by (auto simp: search_def entries_Node)
  next
    case False
    show ?thesis
    proof (cases "k < nk")
      case True
      with False IH(1) kr show ?thesis by (auto simp: search_def entries_Node)
    next
      case False
      with \<open>nk \<noteq> k\<close> IH(2) kl show ?thesis by (auto simp: search_def entries_Node)
    qed
  qed
qed

lemma search_None_keys:
  "bst t \<Longrightarrow> search t k = None \<longleftrightarrow> k \<notin> keys t"
proof -
  assume b: "bst t"
  have "search t k = None \<longleftrightarrow> (\<forall>v. search t k \<noteq> Some v)" by auto
  also have "\<dots> \<longleftrightarrow> (\<forall>v. (k, v) \<notin> entries t)" using search_entries[OF b] by simp
  also have "\<dots> \<longleftrightarrow> k \<notin> keys t" by (force simp: keys_entries)
  finally show ?thesis .
qed

lemma insertHelper_entries:
  "bst t \<Longrightarrow> insertHelper t k v = Some t' \<Longrightarrow>
     bst t' \<and> entries t' = insert (k, v) {e \<in> entries t. fst e \<noteq> k}"
proof (induction t arbitrary: t')
  case Null
  then show ?case by (auto simp: bst_def entries_def)
next
  case (Node nk nv l r h)
  from Node.prems(1) have b: "bst l" "bst r" "\<forall>x \<in> keys l. x < nk" "\<forall>x \<in> keys r. nk < x"
    by (auto simp: bst_Node)
  consider "k < nk" | "nk < k" | "k = nk" by fastforce
  then show ?case
  proof cases
    case 1
    with Node.prems(2) obtain l' where l': "insertHelper l k v = Some l'"
      and t': "insertRebalance (Node nk nv l' r h) k = Some t'"
      by (auto simp del: insertRebalance.simps split: option.splits)
    from Node.IH(1)[OF b(1) l'] have IH: "bst l'" "entries l' = insert (k, v) {e \<in> entries l. fst e \<noteq> k}"
      by auto
    have io: "inorder t' = inorder (Node nk nv l' r h)" by (rule inorder_insertRebalance[OF t'])
    have "keys l' \<subseteq> insert k (keys l)" using IH(2) by (auto simp: keys_entries)
    with b 1 IH(1) have "bst (Node nk nv l' r h)" by (auto simp: bst_Node)
    moreover have "entries (Node nk nv l' r h) = insert (k, v) {e \<in> entries (Node nk nv l r h). fst e \<noteq> k}"
      using IH(2) b 1 by (auto simp: entries_Node keys_entries)
    ultimately show ?thesis using io by (simp add: bst_def entries_def)
  next
    case 2
    then have "\<not> k < nk" by auto
    with 2 Node.prems(2) obtain r' where r': "insertHelper r k v = Some r'"
      and t': "insertRebalance (Node nk nv l r' h) k = Some t'"
      by (auto simp del: insertRebalance.simps split: option.splits)
    from Node.IH(2)[OF b(2) r'] have IH: "bst r'" "entries r' = insert (k, v) {e \<in> entries r. fst e \<noteq> k}"
      by auto
    have io: "inorder t' = inorder (Node nk nv l r' h)" by (rule inorder_insertRebalance[OF t'])
    have "keys r' \<subseteq> insert k (keys r)" using IH(2) by (auto simp: keys_entries)
    with b 2 IH(1) have "bst (Node nk nv l r' h)" by (auto simp: bst_Node)
    moreover have "entries (Node nk nv l r' h) = insert (k, v) {e \<in> entries (Node nk nv l r h). fst e \<noteq> k}"
      using IH(2) b 2 by (auto simp: entries_Node keys_entries)
    ultimately show ?thesis using io by (simp add: bst_def entries_def)
  next
    case 3
    have ne: "(k, b) \<notin> entries l" "(k, b) \<notin> entries r" for b
      using b(3,4) 3 by (auto simp: keys_entries)
    from 3 Node.prems have t': "t' = Node nk v l r h" by simp
    have "bst t'" using b by (simp add: t' bst_Node)
    moreover have "entries t' = insert (k, v) {e \<in> entries (Node nk nv l r h). fst e \<noteq> k}"
      using ne 3 by (auto simp: t' entries_Node)
    ultimately show ?thesis by simp
  qed
qed

lemma minValueNode_min:
  "bst t \<Longrightarrow> minValueNode t = Some m \<Longrightarrow>
     (key m, val m) \<in> entries t \<and> (\<forall>x \<in> keys t. key m \<le> x)"
proof (induction t rule: minValueNode.induct)
  case 1
  then show ?case by simp
next
  case (2 k v r h)
  then have "\<forall>x \<in> keys r. k < x" "m = Node k v Null r h" by (auto simp: bst_Node)
  moreover from this(1) have "\<forall>x \<in> keys r. k \<le> x" using less_imp_le by blast
  ultimately show ?case by (auto simp: entries_Node keys_Node keys_Null)
next
  case (3 k v lk lv ll lr lh r h)
  let ?l = "Node lk lv ll lr lh"
  from "3.prems" have b: "bst ?l" "\<forall>x \<in> keys ?l. x < k" "\<forall>x \<in> keys r. k < x"
    and m: "minValueNode ?l = Some m"
    by (auto simp: bst_Node)
  from "3.IH"[OF b(1) m] have IH: "(key m, val m) \<in> entries ?l" "\<forall>x \<in> keys ?l. key m \<le> x"
    by auto
  from IH(1) have "key m \<in> keys ?l" unfolding keys_entries by (rule image_eqI[rotated]) simp
  with b have mk: "key m < k" by auto
  have "key m \<le> x" if "x \<in> keys (Node k v ?l r h)" for x
  proof -
    from that consider "x \<in> keys ?l" | "x = k" | "x \<in> keys r" by (auto simp: keys_Node)
    then show ?thesis
    proof cases
      case 1 with IH(2) show ?thesis by blast
    next
      case 2 with mk show ?thesis by (simp add: less_imp_le)
    next
      case 3 with b(3) have "k < x" by blast
      with mk show ?thesis using less_trans less_imp_le by blast
    qed
  qed
  moreover have "(key m, val m) \<in> entries (Node k v ?l r h)"
    using IH(1) by (auto simp: entries_Node)
  ultimately show ?case by blast
qed

lemma bst_unique:
  "bst t \<Longrightarrow> (k, v) \<in> entries t \<Longrightarrow> (k, v') \<in> entries t \<Longrightarrow> v = v'"
proof -
  assume b: "bst t" and 1: "(k, v) \<in> entries t" and 2: "(k, v') \<in> entries t"
  from search_entries[OF b, of k v] 1 have "search t k = Some v" by simp
  moreover from search_entries[OF b, of k v'] 2 have "search t k = Some v'" by simp
  ultimately show ?thesis by simp
qed

lemma deleteHelper_entries:
  "bst t \<Longrightarrow> deleteHelper t k = Some t' \<Longrightarrow>
     bst t' \<and> entries t' = {e \<in> entries t. fst e \<noteq> k}"
proof (induction t k arbitrary: t' rule: deleteHelper.induct)
  case (1 k)
  then show ?case by (auto simp: bst_def entries_def)
next
  case (2 nk nv l r h k)
  from "2.prems"(1) have b: "bst l" "bst r" "\<forall>x \<in> keys l. x < nk" "\<forall>x \<in> keys r. nk < x"
    by (auto simp: bst_Node)
  have el: "\<And>e. e \<in> entries l \<Longrightarrow> fst e < nk" and er: "\<And>e. e \<in> entries r \<Longrightarrow> nk < fst e"
    using b by (auto simp: keys_entries)
  have nr: "k < nk \<Longrightarrow> (k, b) \<notin> entries r" and nl: "nk < k \<Longrightarrow> (k, b) \<notin> entries l" for b
    using er[of "(k, b)"] el[of "(k, b)"] less_asym[of k nk] by auto
  consider "k < nk" | "nk < k" | "k = nk" "l = Null \<or> r = Null" | "k = nk" "l \<noteq> Null" "r \<noteq> Null"
    by fastforce
  then show ?case
  proof cases
    case 1
    with "2.prems"(2) obtain l' where l': "deleteHelper l k = Some l'"
      and t': "deleteRebalance (Node nk nv l' r h) = Some t'"
      by (auto simp del: deleteRebalance.simps split: option.splits)
    from "2.IH"(1)[OF 1 b(1) l'] have IH: "bst l'" "entries l' = {e \<in> entries l. fst e \<noteq> k}"
      by auto
    have io: "inorder t' = inorder (Node nk nv l' r h)" by (rule inorder_deleteRebalance[OF t'])
    have "keys l' \<subseteq> keys l" using IH(2) by (auto simp: keys_entries)
    with b IH(1) have "bst (Node nk nv l' r h)" by (auto simp: bst_Node)
    moreover have "entries (Node nk nv l' r h) = {e \<in> entries (Node nk nv l r h). fst e \<noteq> k}"
      using IH(2) nr 1 by (auto simp: entries_Node)
    ultimately show ?thesis using io by (simp add: bst_def entries_def)
  next
    case 2
    then have n: "\<not> k < nk" by auto
    with 2 "2.prems"(2) obtain r' where r': "deleteHelper r k = Some r'"
      and t': "deleteRebalance (Node nk nv l r' h) = Some t'"
      by (auto simp del: deleteRebalance.simps split: option.splits)
    from "2.IH"(2)[OF n 2 b(2) r'] have IH: "bst r'" "entries r' = {e \<in> entries r. fst e \<noteq> k}"
      by auto
    have io: "inorder t' = inorder (Node nk nv l r' h)" by (rule inorder_deleteRebalance[OF t'])
    have "keys r' \<subseteq> keys r" using IH(2) by (auto simp: keys_entries)
    with b IH(1) have "bst (Node nk nv l r' h)" by (auto simp: bst_Node)
    moreover have "entries (Node nk nv l r' h) = {e \<in> entries (Node nk nv l r h). fst e \<noteq> k}"
      using IH(2) nl 2 by (auto simp: entries_Node)
    ultimately show ?thesis using io by (simp add: bst_def entries_def)
  next
    case 3
    let ?c = "if l \<noteq> Null then l else r"
    from 3 "2.prems"(2) have t': "deleteRebalance ?c = Some t'"
      by (auto simp del: deleteRebalance.simps)
    have io: "inorder t' = inorder ?c" by (rule inorder_deleteRebalance[OF t'])
    have "bst ?c" using b by simp
    moreover have "entries ?c = {e \<in> entries (Node nk nv l r h). fst e \<noteq> k}"
      using 3 el er by (auto simp: entries_Node entries_Null)
    ultimately show ?thesis using io by (simp add: bst_def entries_def)
  next
    case 4
    have c: "\<not> k < nk" "\<not> nk < k" "\<not> (l = Null \<or> r = Null)" using 4 by auto
    with "2.prems"(2) obtain m r' where m: "minValueNode r = Some m"
      and r': "deleteHelper r (key m) = Some r'"
      and t': "deleteRebalance (Node (key m) (val m) l r' h) = Some t'"
      by (auto simp del: deleteRebalance.simps split: option.splits)
    from "2.IH"(3)[OF c m b(2) r'] have IH: "bst r'" "entries r' = {e \<in> entries r. fst e \<noteq> key m}"
      by auto
    from minValueNode_min[OF b(2) m] have mm: "(key m, val m) \<in> entries r" "\<forall>x \<in> keys r. key m \<le> x"
      by auto
    have io: "inorder t' = inorder (Node (key m) (val m) l r' h)"
      by (rule inorder_deleteRebalance[OF t'])
    have nm: "nk < key m" using er[OF mm(1)] by simp
    have "key m < x" if "x \<in> keys r'" for x
    proof -
      from that IH(2) have "x \<in> keys r" "x \<noteq> key m" by (auto simp: keys_entries)
      with mm(2) have "key m \<le> x" by blast
      with \<open>x \<noteq> key m\<close> show ?thesis by simp
    qed
    moreover have "x < key m" if "x \<in> keys l" for x
      using that b(3) nm less_trans by blast
    ultimately have "bst (Node (key m) (val m) l r' h)"
      using b(1) IH(1) by (simp add: bst_Node)
    moreover have "entries (Node (key m) (val m) l r' h) = {e \<in> entries (Node nk nv l r h). fst e \<noteq> k}"
    proof -
      have u: "e = (key m, val m)" if "e \<in> entries r" "fst e = key m" for e
      proof -
        from that have "(key m, snd e) \<in> entries r" by (metis prod.collapse)
        from bst_unique[OF b(2) mm(1) this] that(2) show ?thesis
          by (simp add: prod_eq_iff)
      qed
      have "insert (key m, val m) {e \<in> entries r. fst e \<noteq> key m} = entries r"
        using mm(1) u by blast
      then have 1: "insert (key m, val m) (entries r') = entries r"
        using IH(2) by simp
      have 2: "\<forall>e \<in> entries l. fst e \<noteq> nk" "\<forall>e \<in> entries r. fst e \<noteq> nk"
        using el er by auto
      have "entries (Node (key m) (val m) l r' h) = entries l \<union> entries r"
        using 1 by (auto simp: entries_Node)
      also have "\<dots> = {e \<in> entries (Node nk nv l r h). fst e \<noteq> k}"
        using 2 4(1) by (auto simp: entries_Node)
      finally show ?thesis .
    qed
    ultimately show ?thesis using io by (simp add: bst_def entries_def)
  qed
qed

subsection \<open>Reachable trees\<close>

lemma insert_avl_inv:
  assumes "avl t" "bst t"
  shows "\<exists>t'. insert_avl t k v = Some t' \<and> avl t' \<and> bst t' \<and>
           entries t' = insert (k, v) {e \<in> entries t. fst e \<noteq> k}"
proof -
  from insertHelper_inv[OF assms(1), of k v] obtain t' where
    t': "insertHelper t k v = Some t'" "avl t'" by (auto simp: ins_inv_def)
  with insertHelper_entries[OF assms(2) t'(1)] show ?thesis
    by (simp add: insert_avl_def)
qed

lemma deleteHelper_inv2:
  assumes "avl t" "bst t"
  shows "\<exists>t'. deleteHelper t k = Some t' \<and> avl t' \<and> bst t' \<and>
           entries t' = {e \<in> entries t. fst e \<noteq> k}"
proof -
  from deleteHelper_inv[OF assms(1), of k] obtain t' where
    t': "deleteHelper t k = Some t'" "avl t'" by (auto simp: del_inv_def)
  with deleteHelper_entries[OF assms(2) t'(1)] show ?thesis
    by simp
qed

lemma remove_avl_inv:
  assumes "avl t" "bst t"
  shows "\<exists>b t'. remove_avl t k = Some (b, t') \<and> avl t' \<and> bst t'"
proof (cases "search t k = None")
  case True
  with assms show ?thesis by (auto simp: remove_avl_def)
next
  case False
  with deleteHelper_inv2[OF assms, of k] show ?thesis
    by (auto simp: remove_avl_def)
qed

lemma apply_avl_op_inv:
  assumes "avl t" "bst t"
  shows "\<exists>t'. apply_avl_op t x = Some t' \<and> avl t' \<and> bst t'"
proof (cases x)
  case (Insert k v)
  with insert_avl_inv[OF assms, of k v] show ?thesis by auto
next
  case (Remove k)
  with remove_avl_inv[OF assms, of k] show ?thesis by auto
qed

lemma run_avl_inv:
  "avl t \<Longrightarrow> bst t \<Longrightarrow> \<exists>t'. run_avl t ops = Some t' \<and> avl t' \<and> bst t'"
proof (induction ops arbitrary: t)
  case Nil
  then show ?case by simp
next
  case (Cons x ops)
  from apply_avl_op_inv[OF Cons.prems, of x] obtain t1 where
    t1: "apply_avl_op t x = Some t1" "avl t1" "bst t1" by blast
  from Cons.IH[OF t1(2,3)] t1(1) show ?case by simp
qed

lemma reachable_inv: "\<exists>t. run_avl Null ops = Some t \<and> avl t \<and> bst t"
  by (rule run_avl_inv) (simp_all add: bst_Null)

subsection \<open>Insert of a key that is present\<close>

lemma shape_depth: "shape a = shape b \<Longrightarrow> depth a = depth b"
proof (induction a arbitrary: b)
  case Null
  then show ?case by (cases b) auto
next
  case (Node k v l r h)
  then obtain v' l' r' where "b = Node k v' l' r' h" "shape l = shape l'" "shape r = shape r'"
    by (cases b) auto
  with Node.IH show ?case by simp
qed

lemma shape_getHeight: "shape a = shape b \<Longrightarrow> getHeight a = getHeight b"
  by (cases a; cases b) auto

lemma shape_avl: "shape a = shape b \<Longrightarrow> avl a = avl b"
proof (induction a arbitrary: b)
  case Null
  then show ?case by (cases b) auto
next
  case (Node k v l r h)
  then obtain v' l' r' where b: "b = Node k v' l' r' h" "shape l = shape l'" "shape r = shape r'"
    by (cases b) auto
  with Node.IH shape_depth[OF b(2)] shape_depth[OF b(3)]
    shape_getHeight[OF b(2)] shape_getHeight[OF b(3)]
  show ?case by simp
qed

lemma insertRebalance_avl:
  "avl (Node nk nv l r h) \<Longrightarrow> insertRebalance (Node nk nv l r h) k = Some (Node nk nv l r h)"
  by (auto simp: avl_getHeight Let_def)

lemma insertHelper_present:
  "avl t \<Longrightarrow> searchHelper t k \<noteq> Null \<Longrightarrow>
     \<exists>t'. insertHelper t k v = Some t' \<and> shape t' = shape t"
proof (induction t)
  case Null
  then show ?case by simp
next
  case (Node nk nv l r h)
  from Node.prems(1) have a: "avl l" "avl r" by auto
  consider "k < nk" | "nk < k" | "k = nk" by fastforce
  then show ?case
  proof cases
    case 1
    then have "nk \<noteq> k" by auto
    with 1 Node.prems(2) have "searchHelper l k \<noteq> Null" by simp
    from Node.IH(1)[OF a(1) this] obtain l' where l': "insertHelper l k v = Some l'" "shape l' = shape l"
      by blast
    then have s: "shape (Node nk nv l' r h) = shape (Node nk nv l r h)" by simp
    with Node.prems(1) have "avl (Node nk nv l' r h)" using shape_avl by blast
    from insertRebalance_avl[OF this, of k] l' 1 show ?thesis by simp
  next
    case 2
    then have "nk \<noteq> k" "\<not> k < nk" by auto
    with Node.prems(2) have "searchHelper r k \<noteq> Null" by simp
    from Node.IH(2)[OF a(2) this] obtain r' where r': "insertHelper r k v = Some r'" "shape r' = shape r"
      by blast
    then have s: "shape (Node nk nv l r' h) = shape (Node nk nv l r h)" by simp
    with Node.prems(1) have "avl (Node nk nv l r' h)" using shape_avl by blast
    from insertRebalance_avl[OF this, of k] r' 2 show ?thesis by auto
  next
    case 3
    then show ?thesis by simp
  qed
qed

lemma search_None_iff: "search t k = None \<longleftrightarrow> searchHelper t k = Null"
  by (simp add: search_def split: AVLNode.splits)

lemma search_insert_other:
  assumes "bst t" "bst t'" "entries t' = insert (k, v) {e \<in> entries t. fst e \<noteq> k}" "k' \<noteq> k"
  shows "search t' k' = search t k'"
proof -
  have "search t' k' = Some w \<longleftrightarrow> search t k' = Some w" for w
  proof -
    have "(k', w) \<in> entries t' \<longleftrightarrow> (k', w) \<in> entries t"
      unfolding assms(3) using assms(4) by simp
    then show ?thesis
      unfolding search_entries[OF assms(1)] search_entries[OF assms(2)] .
  qed
  then show ?thesis by (metis not_None_eq)
qed

subsection \<open>Claims about the AVL tree\<close>

text \<open>
  Claim C1. For every sequence of \<open>insert\<close> and \<open>remove\<close> operations starting from the
  empty tree, the operations all return and every node of the resulting tree satisfies
  \<open>\<bar>height(left) - height(right)\<bar> \<le> 1\<close>, with its stored height field equal to one
  plus the maximum of the stored heights of its children (0 for an empty subtree).
\<close>
theorem avl_balance_invariant:
  "\<exists>t. run_avl Null ops = Some t \<and> avl t"
  using reachable_inv[of ops] by blast

theorem avl_balance_invariant_witness:
  "run_avl Null [Insert ''Mumbai'' 100, Insert ''Delhi'' 200, Insert ''Bangalore'' 300,
                 Insert ''Chennai'' 400, Insert ''Kolkata'' 500, Remove ''Delhi'']
     = Some (Node ''Kolkata'' 500
              (Node ''Bangalore'' 300 Null (Node ''Chennai'' 400 Null Null 1) 2)
              (Node ''Mumbai'' 100 Null Null 1) 3)
   \<and> avl (Node ''Kolkata'' 500
              (Node ''Bangalore'' 300 Null (Node ''Chennai'' 400 Null Null 1) 2)
              (Node ''Mumbai'' 100 Null Null 1) 3)"
proof -
  have 1: "run_avl Null [Insert ''Mumbai'' 100, Insert ''Delhi'' 200, Insert ''Bangalore'' 300,
                 Insert ''Chennai'' 400, Insert ''Kolkata'' 500, Remove ''Delhi'']
     = Some (Node ''Kolkata'' 500
              (Node ''Bangalore'' 300 Null (Node ''Chennai'' 400 Null Null 1) 2)
              (Node ''Mumbai'' 100 Null Null 1) 3)"
    by code_simp
  from avl_balance_invariant[of "[Insert ''Mumbai'' 100, Insert ''Delhi'' 200, Insert ''Bangalore'' 300,
                 Insert ''Chennai'' 400, Insert ''Kolkata'' 500, Remove ''Delhi'']", unfolded 1]
  have "avl (Node ''Kolkata'' 500
              (Node ''Bangalore'' 300 Null (Node ''Chennai'' 400 Null Null 1) 2)
              (Node ''Mumbai'' 100 Null Null 1) 3)"
    by blast
  with 1 show ?thesis by (rule conjI)
qed

text \<open>
  Claim C5. After every sequence of \<open>insert\<close> and \<open>remove\<close> operations,
  \<open>inorderTraversal\<close> returns the stored (key, value) pairs, that is the pairs
  \<open>search\<close> finds, with the keys in strictly ascending lexicographic order.
\<close>
theorem inorder_strictly_ascending:
  "\<exists>t. run_avl Null ops = Some t \<and>
       sorted_wrt (<) (map fst (inorderTraversal t)) \<and>
       (\<forall>k v. (k, v) \<in> set (inorderTraversal t) \<longleftrightarrow> search t k = Some v)"
proof -
  from reachable_inv[of ops] obtain t where t: "run_avl Null ops = Some t" "bst t" by blast
  from t(2) have "sorted_wrt (<) (map fst (inorderTraversal t))"
    by (simp add: inorderTraversal_inorder bst_def)
  moreover have "\<forall>k v. (k, v) \<in> set (inorderTraversal t) \<longleftrightarrow> search t k = Some v"
    using search_entries[OF t(2)] by (simp add: inorderTraversal_inorder entries_def)
  ultimately show ?thesis using t(1) by blast
qed

theorem inorder_strictly_ascending_witness:
  "run_avl Null [Insert ''Mumbai'' 100, Insert ''Delhi'' 200, Insert ''Bangalore'' 300,
                 Insert ''Chennai'' 400, Insert ''Kolkata'' 500, Remove ''Delhi'']
     = Some (Node ''Kolkata'' 500
              (Node ''Bangalore'' 300 Null (Node ''Chennai'' 400 Null Null 1) 2)
              (Node ''Mumbai'' 100 Null Null 1) 3)
   \<and> inorderTraversal (Node ''Kolkata'' 500
              (Node ''Bangalore'' 300 Null (Node ''Chennai'' 400 Null Null 1) 2)
              (Node ''Mumbai'' 100 Null Null 1) 3)
     = [(''Bangalore'', 300), (''Chennai'', 400), (''Kolkata'', 500), (''Mumbai'', 100)]
   \<and> sorted_wrt (<) (map fst (inorderTraversal (Node ''Kolkata'' 500
              (Node ''Bangalore'' 300 Null (Node ''Chennai'' 400 Null Null 1) 2)
              (Node ''Mumbai'' 100 Null Null 1) 3)))"
proof -
  have 1: "run_avl Null [Insert ''Mumbai'' 100, Insert ''Delhi'' 200, Insert ''Bangalore'' 300,
                 Insert ''Chennai'' 400, Insert ''Kolkata'' 500, Remove ''Delhi'']
     = Some (Node ''Kolkata'' 500
              (Node ''Bangalore'' 300 Null (Node ''Chennai'' 400 Null Null 1) 2)
              (Node ''Mumbai'' 100 Null Null 1) 3)"
    by code_simp
  have 2: "inorderTraversal (Node ''Kolkata'' 500
              (Node ''Bangalore'' 300 Null (Node ''Chennai'' 400 Null Null 1) 2)
              (Node ''Mumbai'' 100 Null Null 1) 3)
     = [(''Bangalore'', 300), (''Chennai'', 400), (''Kolkata'', 500), (''Mumbai'', 100)]"
    by code_simp
  from inorder_strictly_ascending[of "[Insert ''Mumbai'' 100, Insert ''Delhi'' 200,
                 Insert ''Bangalore'' 300, Insert ''Chennai'' 400, Insert ''Kolkata'' 500,
                 Remove ''Delhi'']", unfolded 1]
  have "sorted_wrt (<) (map fst (inorderTraversal (Node ''Kolkata'' 500
              (Node ''Bangalore'' 300 Null (Node ''Chennai'' 400 Null Null 1) 2)
              (Node ''Mumbai'' 100 Null Null 1) 3)))"
    by blast
  with 1 2 show ?thesis by blast
qed

text \<open>
  Claim C6. For every tree state, key \<open>k\<close> and value \<open>v\<close>: after \<open>insert(k, v)\<close> a
  search for \<open>k\<close> finds \<open>v\<close> and every other key keeps its value; when \<open>k\<close> was already
  present the tree keeps its shape, its keys and all its stored heights.
\<close>
theorem insert_then_search:
  "\<exists>t t'. run_avl Null ops = Some t \<and> insert_avl t k v = Some t' \<and>
       search t' k = Some v \<and>
       (\<forall>k'. k' \<noteq> k \<longrightarrow> search t' k' = search t k') \<and>
       (search t k \<noteq> None \<longrightarrow> shape t' = shape t)"
proof -
  from reachable_inv[of ops] obtain t where t: "run_avl Null ops = Some t" "avl t" "bst t" by blast
  from insert_avl_inv[OF t(2,3), of k v] obtain t' where
    t': "insert_avl t k v = Some t'" "bst t'" "entries t' = insert (k, v) {e \<in> entries t. fst e \<noteq> k}"
    by blast
  have 1: "search t' k = Some v" using search_entries[OF t'(2), of k v] t'(3) by simp
  have 2: "\<forall>k'. k' \<noteq> k \<longrightarrow> search t' k' = search t k'"
    using search_insert_other[OF t(3) t'(2,3)] by blast
  have 3: "search t k \<noteq> None \<longrightarrow> shape t' = shape t"
    using insertHelper_present[OF t(2), of k v] t'(1)
    by (auto simp: search_None_iff insert_avl_def)
  from t(1) t'(1) 1 2 3 show ?thesis by blast
qed

theorem insert_then_search_witness:
  "run_avl Null [Insert ''Mumbai'' 100, Insert ''Delhi'' 200, Insert ''Bangalore'' 300]
     = Some (Node ''Delhi'' 200 (Node ''Bangalore'' 300 Null Null 1) (Node ''Mumbai'' 100 Null Null 1) 2)
   \<and> insert_avl (Node ''Delhi'' 200 (Node ''Bangalore'' 300 Null Null 1) (Node ''Mumbai'' 100 Null Null 1) 2)
        ''Mumbai'' 7
     = Some (Node ''Delhi'' 200 (Node ''Bangalore'' 300 Null Null 1) (Node ''Mumbai'' 7 Null Null 1) 2)
   \<and> search (Node ''Delhi'' 200 (Node ''Bangalore'' 300 Null Null 1) (Node ''Mumbai'' 7 Null Null 1) 2)
        ''Mumbai'' = Some 7
   \<and> search (Node ''Delhi'' 200 (Node ''Bangalore'' 300 Null Null 1) (Node ''Mumbai'' 7 Null Null 1) 2)
        ''Delhi''
     = search (Node ''Delhi'' 200 (Node ''Bangalore'' 300 Null Null 1) (Node ''Mumbai'' 100 Null Null 1) 2)
        ''Delhi''
   \<and> search (Node ''Delhi'' 200 (Node ''Bangalore'' 300 Null Null 1) (Node ''Mumbai'' 100 Null Null 1) 2)
        ''Mumbai'' \<noteq> None
   \<and> shape (Node ''Delhi'' 200 (Node ''Bangalore'' 300 Null Null 1) (Node ''Mumbai'' 7 Null Null 1) 2)
     = shape (Node ''Delhi'' 200 (Node ''Bangalore'' 300 Null Null 1) (Node ''Mumbai'' 100 Null Null 1) 2)"
proof -
  let ?t = "Node ''Delhi'' 200 (Node ''Bangalore'' 300 Null Null 1) (Node ''Mumbai'' 100 Null Null 1) 2"
  let ?t' = "Node ''Delhi'' 200 (Node ''Bangalore'' 300 Null Null 1) (Node ''Mumbai'' 7 Null Null 1) 2"
  have 1: "run_avl Null [Insert ''Mumbai'' 100, Insert ''Delhi'' 200, Insert ''Bangalore'' 300] = Some ?t"
    by code_simp
  have 2: "insert_avl ?t ''Mumbai'' 7 = Some ?t'"
    by code_simp
  have 3: "search ?t ''Mumbai'' \<noteq> None"
    by code_simp
  have 4: "''Delhi'' \<noteq> ''Mumbai''"
    by simp
  from insert_then_search[of "[Insert ''Mumbai'' 100, Insert ''Delhi'' 200, Insert ''Bangalore'' 300]"
          "''Mumbai''" 7, unfolded 1]
  obtain t t' where o: "Some ?t = Some t" "insert_avl t ''Mumbai'' 7 = Some t'"
      "search t' ''Mumbai'' = Some 7"
      "\<forall>k'. k' \<noteq> ''Mumbai'' \<longrightarrow> search t' k' = search t k'"
      "search t ''Mumbai'' \<noteq> None \<longrightarrow> shape t' = shape t"
    by (elim exE conjE)
  from o(1) have t: "t = ?t" by (rule sym[OF option.inject[THEN iffD1]])
  from o(2) 2 have t': "t' = ?t'" unfolding t by (rule option.inject[THEN iffD1, OF trans[OF sym]])
  from o(3) have 5: "search ?t' ''Mumbai'' = Some 7" unfolding t' .
  have 6: "search ?t' ''Delhi'' = search ?t ''Delhi''"
    by (rule o(4)[unfolded t t', rule_format, OF 4])
  from o(5) 3 have 7: "shape ?t' = shape ?t" unfolding t t' by (rule mp)
  show ?thesis by (intro conjI 1 2 3 5 6 7)
qed

text \<open>
  Claim C8. For every tree state and key \<open>k\<close>, \<open>remove(k)\<close> returns true if and only if
  \<open>k\<close> is one of the stored keys; when it returns false the tree is unchanged; when it
  returns true a search for \<open>k\<close> afterwards finds nothing.
\<close>
theorem remove_reports_presence:
  "\<exists>t b t'. run_avl Null ops = Some t \<and> remove_avl t k = Some (b, t') \<and>
       (b \<longleftrightarrow> k \<in> fst ` set (inorderTraversal t)) \<and>
       (\<not> b \<longrightarrow> t' = t) \<and>
       (b \<longrightarrow> search t' k = None)"
proof -
  from reachable_inv[of ops] obtain t where t: "run_avl Null ops = Some t" "avl t" "bst t" by blast
  have p: "search t k = None \<longleftrightarrow> k \<notin> fst ` set (inorderTraversal t)"
    using search_None_keys[OF t(3), of k] by (simp add: keys_def inorderTraversal_inorder)
  show ?thesis
  proof (cases "search t k = None")
    case True
    then have "remove_avl t k = Some (False, t)" by (simp add: remove_avl_def)
    with t(1) p True show ?thesis by blast
  next
    case False
    from deleteHelper_inv2[OF t(2,3), of k] obtain t' where
      t': "deleteHelper t k = Some t'" "bst t'" "entries t' = {e \<in> entries t. fst e \<noteq> k}"
      by blast
    have "k \<notin> keys t'" unfolding keys_entries t'(3) by auto
    then have "search t' k = None" using search_None_keys[OF t'(2)] by simp
    moreover from False t'(1) have "remove_avl t k = Some (True, t')" by (simp add: remove_avl_def)
    ultimately show ?thesis using t(1) p False by blast
  qed
qed

theorem remove_reports_presence_witness:
  "run_avl Null [Insert ''Mumbai'' 100, Insert ''Delhi'' 200, Insert ''Bangalore'' 300]
     = Some (Node ''Delhi'' 200 (Node ''Bangalore'' 300 Null Null 1) (Node ''Mumbai'' 100 Null Null 1) 2)
   \<and> remove_avl (Node ''Delhi'' 200 (Node ''Bangalore'' 300 Null Null 1) (Node ''Mumbai'' 100 Null Null 1) 2)
        ''Delhi''
     = Some (True, Node ''Mumbai'' 100 (Node ''Bangalore'' 300 Null Null 1) Null 2)
   \<and> ''Delhi'' \<in> fst ` set (inorderTraversal
        (Node ''Delhi'' 200 (Node ''Bangalore'' 300 Null Null 1) (Node ''Mumbai'' 100 Null Null 1) 2))
   \<and> search (Node ''Mumbai'' 100 (Node ''Bangalore'' 300 Null Null 1) Null 2) ''Delhi'' = None
   \<and> remove_avl (Node ''Delhi'' 200 (Node ''Bangalore'' 300 Null Null 1) (Node ''Mumbai'' 100 Null Null 1) 2)
        ''Pune''
     = Some (False, Node ''Delhi'' 200 (Node ''Bangalore'' 300 Null Null 1) (Node ''Mumbai'' 100 Null Null 1) 2)
   \<and> ''Pune'' \<notin> fst ` set (inorderTraversal
        (Node ''Delhi'' 200 (Node ''Bangalore'' 300 Null Null 1) (Node ''Mumbai'' 100 Null Null 1) 2))"
proof -
  let ?t = "Node ''Delhi'' 200 (Node ''Bangalore'' 300 Null Null 1) (Node ''Mumbai'' 100 Null Null 1) 2"
  let ?t' = "Node ''Mumbai'' 100 (Node ''Bangalore'' 300 Null Null 1) Null 2"
  have 1: "run_avl Null [Insert ''Mumbai'' 100, Insert ''Delhi'' 200, Insert ''Bangalore'' 300] = Some ?t"
    by code_simp
  have 2: "remove_avl ?t ''Delhi'' = Some (True, ?t')"
    by code_simp
  have 3: "remove_avl ?t ''Pune'' = Some (False, ?t)"
    by code_simp
  from remove_reports_presence[of "[Insert ''Mumbai'' 100, Insert ''Delhi'' 200, Insert ''Bangalore'' 300]"
          "''Delhi''", unfolded 1]
  obtain t b t1 where o: "Some ?t = Some t" "remove_avl t ''Delhi'' = Some (b, t1)"
      "b \<longleftrightarrow> ''Delhi'' \<in> fst ` set (inorderTraversal t)" "b \<longrightarrow> search t1 ''Delhi'' = None"
    by (elim exE conjE)
  from o(1) have t: "t = ?t" by (rule sym[OF option.inject[THEN iffD1]])
  from o(2) 2 have "(b, t1) = (True, ?t')" unfolding t by (rule option.inject[THEN iffD1, OF trans[OF sym]])
  then have b: "b = True" "t1 = ?t'" by (simp_all only: prod.inject)
  from o(3,4) have 4: "''Delhi'' \<in> fst ` set (inorderTraversal ?t) \<and> search ?t' ''Delhi'' = None"
    unfolding t b by (simp only: simp_thms)
  from remove_reports_presence[of "[Insert ''Mumbai'' 100, Insert ''Delhi'' 200, Insert ''Bangalore'' 300]"
          "''Pune''", unfolded 1]
  obtain t2 b2 t3 where o2: "Some ?t = Some t2" "remove_avl t2 ''Pune'' = Some (b2, t3)"
      "b2 \<longleftrightarrow> ''Pune'' \<in> fst ` set (inorderTraversal t2)"
    by (elim exE conjE)
  from o2(1) have t2: "t2 = ?t" by (rule sym[OF option.inject[THEN iffD1]])
  from o2(2) 3 have "(b2, t3) = (False, ?t)" unfolding t2 by (rule option.inject[THEN iffD1, OF trans[OF sym]])
  then have b2: "b2 = False" by (simp only: prod.inject)
  from o2(3) have 5: "''Pune'' \<notin> fst ` set (inorderTraversal ?t)"
    unfolding t2 b2 by (simp only: simp_thms)
  show ?thesis by (intro conjI 1 2 3 4[THEN conjunct1] 4[THEN conjunct2] 5)
qed


section \<open>The graph of NavigateX.cpp\<close>

text \<open>
  \<^verbatim>\<open>class Graph\<close> holds \<^verbatim>\<open>unordered_map<string, int> nameToNode\<close>,
  \<^verbatim>\<open>vector<string> nodeToName\<close> and \<^verbatim>\<open>vector<vector<pair<int, int>>> adj\<close>.
  Node ids are indices into the two vectors, so they are natural numbers. Weights and
  distances are 32-bit \<^verbatim>\<open>int\<close>s: they are integers here, and the one addition the code
  performs (\<^verbatim>\<open>dist[u] + w\<close>) is checked against the range of \<^verbatim>\<open>int\<close>.
  \<^verbatim>\<open>const int INF = numeric_limits<int>::max()\<close> is \<open>INT_MAX\<close>.

  The map is an association list that a new key is appended to; the loops of the source
  over the map read it front to back. (The iteration order of an \<^verbatim>\<open>unordered_map\<close> is
  unspecified: \<open>find_existing\<close> below shows that on the states the class can be in at
  most one key matches, so that the order does not matter.)

  A function that indexes a vector or adds two \<^verbatim>\<open>int\<close>s returns an \<open>option\<close>: \<open>None\<close>
  stands for an index out of range or a signed overflow, both undefined behaviour in C++,
  and, for \<open>shortestPath\<close>, for a path loop that never ends.
\<close>

definition INT_MAX :: int where
  "INT_MAX = 2147483647"

definition INT_MIN :: int where
  "INT_MIN = - 2147483648"

text \<open>\<^verbatim>\<open>::tolower\<close> in the "C" locale, applied to every character by \<^verbatim>\<open>toLower\<close>.\<close>

definition tolower :: "char \<Rightarrow> char" where
  "tolower c = (if CHR ''A'' \<le> c \<and> c \<le> CHR ''Z'' then char_of (of_char c + (32 :: nat)) else c)"

definition toLower :: "string \<Rightarrow> string" where
  "toLower s = map tolower s"

record Graph =
  nameToNode :: "(string \<times> nat) list"
  nodeToName :: "string list"
  adj :: "(nat \<times> int) list list"

definition empty_graph :: Graph where
  "empty_graph = \<lparr>nameToNode = [], nodeToName = [], adj = []\<rparr>"

definition addLocation :: "Graph \<Rightarrow> string \<Rightarrow> nat \<times> Graph" where
  "addLocation g name =
     (case find (\<lambda>p. toLower (fst p) = toLower name) (nameToNode g) of
        Some p \<Rightarrow> (snd p, g)
      | None \<Rightarrow>
          (let id = length (nodeToName g)
           in (id, g\<lparr>nameToNode := nameToNode g @ [(name, id)],
                     nodeToName := nodeToName g @ [name],
                     adj := adj g @ [[]]\<rparr>)))"

text \<open>The loop \<^verbatim>\<open>for (auto& edge : list) if (edge.first == v) { edge.second = w; ... }\<close>
  that stops at the first entry for \<open>v\<close>.\<close>

fun set_weight :: "nat \<Rightarrow> int \<Rightarrow> (nat \<times> int) list \<Rightarrow> (nat \<times> int) list" where
  "set_weight v w [] = []"
| "set_weight v w (e # es) = (if fst e = v then (fst e, w) # es else e # set_weight v w es)"

text \<open>The body of \<^verbatim>\<open>addEdge\<close> after the two \<^verbatim>\<open>addLocation\<close> calls: the loop over
  \<^verbatim>\<open>adj[u]\<close> that looks for \<open>v\<close>, with the inner loop over \<^verbatim>\<open>adj[v]\<close> run after
  \<^verbatim>\<open>edge.second = w\<close>, and the two \<^verbatim>\<open>push_back\<close> calls when the loop finds nothing.\<close>

definition addEdge_adj :: "nat \<Rightarrow> nat \<Rightarrow> int \<Rightarrow> (nat \<times> int) list list \<Rightarrow> (nat \<times> int) list list" where
  "addEdge_adj u v w a =
     (if \<exists>e \<in> set (a ! u). fst e = v then
        (let a1 = a[u := set_weight v w (a ! u)]
         in a1[v := set_weight u w (a1 ! v)])
      else
        (let a1 = a[u := a ! u @ [(v, w)]]
         in a1[v := a1 ! v @ [(u, w)]]))"

definition addEdge :: "Graph \<Rightarrow> string \<Rightarrow> string \<Rightarrow> int \<Rightarrow> Graph option" where
  "addEdge g uName vName w =
     (let (u, g1) = addLocation g uName;
          (v, g2) = addLocation g1 vName
      in if u < length (adj g2) \<and> v < length (adj g2)
         then Some (g2\<lparr>adj := addEdge_adj u v w (adj g2)\<rparr>)
         else None)"

definition hasLocation :: "Graph \<Rightarrow> string \<Rightarrow> bool" where
  "hasLocation g name = (find (\<lambda>p. toLower (fst p) = toLower name) (nameToNode g) \<noteq> None)"

definition getActualLocationName :: "Graph \<Rightarrow> string \<Rightarrow> string" where
  "getActualLocationName g name =
     (case find (\<lambda>p. toLower (fst p) = toLower name) (nameToNode g) of
        Some p \<Rightarrow> fst p
      | None \<Rightarrow> name)"

text \<open>\<^verbatim>\<open>nameToNode[name]\<close> as a read. On a missing key \<^verbatim>\<open>operator[]\<close> inserts the value 0;
  the callers only pass a name returned by \<open>getActualLocationName\<close> after \<open>hasLocation\<close>
  succeeded, which is a key of the map (\<open>node_of_nth\<close>).\<close>

definition node_of :: "Graph \<Rightarrow> string \<Rightarrow> nat" where
  "node_of g name = (case map_of (nameToNode g) name of Some i \<Rightarrow> i | None \<Rightarrow> 0)"

text \<open>The \<^verbatim>\<open>priority_queue\<close> with \<^verbatim>\<open>greater<pair<int, int>>\<close> is a list of pairs
  (distance, node); \<open>pq_top\<close> is its least pair in the lexicographic order, and \<^verbatim>\<open>pop\<close>
  removes one copy of it.\<close>

definition pair_le :: "int \<times> nat \<Rightarrow> int \<times> nat \<Rightarrow> bool" where
  "pair_le a b = (fst a < fst b \<or> fst a = fst b \<and> snd a \<le> snd b)"

fun pq_top :: "(int \<times> nat) list \<Rightarrow> int \<times> nat" where
  "pq_top [] = (0, 0)"
| "pq_top [x] = x"
| "pq_top (x # y # ys) = (let m = pq_top (y # ys) in if pair_le x m then x else m)"

text \<open>The loop over \<^verbatim>\<open>adj[u]\<close> inside the main loop of \<open>shortestPath\<close>.\<close>

fun relax :: "nat \<Rightarrow> (nat \<times> int) list \<Rightarrow> int list \<times> int list \<times> (int \<times> nat) list
                \<Rightarrow> (int list \<times> int list \<times> (int \<times> nat) list) option" where
  "relax u [] s = Some s"
| "relax u ((v, w) # es) (dist, parent, pq) =
     (if u < length dist \<and> v < length dist \<and> v < length parent then
        (let s = dist ! u + w
         in if s < INT_MIN \<or> INT_MAX < s then None
            else if s < dist ! v then
              relax u es (dist[v := s], parent[v := int u], pq @ [(s, v)])
            else relax u es (dist, parent, pq))
      else None)"

definition unvisited :: "bool list \<Rightarrow> nat" where
  "unvisited vis = length (filter Not vis)"

function dijkstra_loop :: "(nat \<times> int) list list
    \<Rightarrow> int list \<times> int list \<times> bool list \<times> (int \<times> nat) list
    \<Rightarrow> (int list \<times> int list) option" where
  "dijkstra_loop a (dist, parent, visited, pq) =
     (if pq = [] then Some (dist, parent)
      else
        (let cur = pq_top pq;
             pq' = remove1 cur pq;
             u = snd cur
         in if u < length visited \<and> u < length a then
              (if visited ! u then dijkstra_loop a (dist, parent, visited, pq')
               else
                 (case relax u (a ! u) (dist, parent, pq') of
                    None \<Rightarrow> None
                  | Some (dist', parent', pq'') \<Rightarrow>
                      dijkstra_loop a (dist', parent', visited[u := True], pq'')))
            else None))"
  by pat_completeness auto

lemma pq_top_mem: "pq \<noteq> [] \<Longrightarrow> pq_top pq \<in> set pq"
  by (induction pq rule: pq_top.induct) (auto simp: Let_def)

lemma unvisited_update:
  "u < length vis \<Longrightarrow> \<not> vis ! u \<Longrightarrow> unvisited (vis[u := True]) < unvisited vis"
proof (induction vis arbitrary: u)
  case Nil
  then show ?case by simp
next
  case (Cons b vis)
  then show ?case by (cases u) (auto simp: unvisited_def)
qed

termination dijkstra_loop
proof (relation "measures [\<lambda>(a, dist, parent, visited, pq). unvisited visited,
                            \<lambda>(a, dist, parent, visited, pq). length pq]", goal_cases)
  case 1
  show ?case by simp
next
  case (2 a dist parent visited pq cur pq' u)
  then show ?case using pq_top_mem[of pq]
    by (auto simp: length_remove1 intro!: diff_less)
next
  case (3 a dist parent visited pq cur pq' u x2 dist' y parent' pq'')
  then show ?case by (simp add: unvisited_update)
qed

text \<open>The loop \<^verbatim>\<open>while (cur != -1)\<close> that collects the path backwards. It skips empty
  names, and it does not end when the parents form a cycle.\<close>

partial_function (option) walk :: "string list \<Rightarrow> int list \<Rightarrow> int \<Rightarrow> string list \<Rightarrow> string list option" where
  "walk names parent cur path =
     (if cur = - 1 then Some path
      else if 0 \<le> cur \<and> nat cur < length names \<and> nat cur < length parent then
        walk names parent (parent ! nat cur)
          (if names ! nat cur \<noteq> [] then path @ [names ! nat cur] else path)
      else None)"

declare walk.simps [code]

text \<open>\<open>shortestPath\<close> returns its boolean result, \<^verbatim>\<open>pathOut\<close> and \<^verbatim>\<open>distOut\<close>.\<close>

definition shortestPath :: "Graph \<Rightarrow> string \<Rightarrow> string \<Rightarrow> (bool \<times> string list \<times> int) option" where
  "shortestPath g srcName destName =
     (let src = getActualLocationName g srcName;
          dest = getActualLocationName g destName
      in if \<not> hasLocation g src \<or> \<not> hasLocation g dest then Some (False, [], INT_MAX)
         else
           (let n = length (nodeToName g);
                dist = replicate n INT_MAX;
                parent = replicate n (- 1);
                visited = replicate n False;
                s = node_of g src;
                t = node_of g dest
            in if s < n \<and> t < n then
                 (case dijkstra_loop (adj g) (dist[s := 0], parent, visited, [(0, s)]) of
                    None \<Rightarrow> None
                  | Some (dist', parent') \<Rightarrow>
                      if dist' ! t = INT_MAX then Some (False, [], INT_MAX)
                      else
                        (case walk (nodeToName g) parent' (int t) [] of
                           None \<Rightarrow> None
                         | Some path \<Rightarrow> Some (True, rev path, dist' ! t)))
               else None))"

text \<open>A graph state is what a sequence of \<open>addLocation\<close> and \<open>addEdge\<close> calls makes of
  the empty graph of the constructor.\<close>

datatype graph_op = AddLocation string | AddEdge string string int

fun apply_graph_op :: "Graph \<Rightarrow> graph_op \<Rightarrow> Graph option" where
  "apply_graph_op g (AddLocation name) = Some (snd (addLocation g name))"
| "apply_graph_op g (AddEdge a b w) = addEdge g a b w"

fun run_graph :: "Graph \<Rightarrow> graph_op list \<Rightarrow> Graph option" where
  "run_graph g [] = Some g"
| "run_graph g (x # xs) =
     (case apply_graph_op g x of None \<Rightarrow> None | Some g' \<Rightarrow> run_graph g' xs)"


definition graph_inv :: "Graph \<Rightarrow> bool" where
  "graph_inv g =
     (length (adj g) = length (nodeToName g) \<and>
      map fst (nameToNode g) = nodeToName g \<and>
      map snd (nameToNode g) = [0..<length (nodeToName g)] \<and>
      distinct (map toLower (nodeToName g)) \<and>
      (\<forall>es \<in> set (adj g). \<forall>e \<in> set es. fst e < length (nodeToName g)))"

lemma graph_inv_empty: "graph_inv empty_graph"
  by (simp add: graph_inv_def empty_graph_def)

lemma nameToNode_nth:
  assumes "graph_inv g" "i < length (nodeToName g)"
  shows "nameToNode g ! i = (nodeToName g ! i, i)"
proof -
  from assms have l: "length (nameToNode g) = length (nodeToName g)"
    by (metis graph_inv_def length_map)
  have "fst (nameToNode g ! i) = nodeToName g ! i"
    using assms l by (metis graph_inv_def nth_map)
  moreover have "snd (nameToNode g ! i) = i"
    using assms l by (metis graph_inv_def nth_map nth_upt add_0)
  ultimately show ?thesis by (simp add: prod_eq_iff)
qed

lemma find_existing:
  assumes "graph_inv g" "i < length (nodeToName g)" "toLower (nodeToName g ! i) = toLower name"
  shows "find (\<lambda>p. toLower (fst p) = toLower name) (nameToNode g) = Some (nodeToName g ! i, i)"
proof -
  let ?P = "\<lambda>p. toLower (fst p) = toLower name"
  from assms(1) have l: "length (nameToNode g) = length (nodeToName g)"
    by (metis graph_inv_def length_map)
  have "nameToNode g ! i \<in> set (nameToNode g)" using assms(2) l by simp
  moreover have "?P (nameToNode g ! i)" using nameToNode_nth[OF assms(1,2)] assms(3) by simp
  ultimately have "find ?P (nameToNode g) \<noteq> None" unfolding find_None_iff by blast
  then obtain p where p: "find ?P (nameToNode g) = Some p" by blast
  then have "p \<in> set (nameToNode g)" "?P p" by (auto simp: find_Some_iff)
  then obtain j where j: "j < length (nodeToName g)" "p = nameToNode g ! j"
    using l by (metis in_set_conv_nth)
  with nameToNode_nth[OF assms(1) j(1)] \<open>?P p\<close> have "toLower (nodeToName g ! j) = toLower name"
    by simp
  with assms(2,3) j(1) have "map toLower (nodeToName g) ! j = map toLower (nodeToName g) ! i"
    by simp
  moreover from assms(1) have "distinct (map toLower (nodeToName g))" by (simp add: graph_inv_def)
  ultimately have "j = i"
    using assms(2) j(1) nth_eq_iff_index_eq[of "map toLower (nodeToName g)" j i] by simp
  with p j nameToNode_nth[OF assms(1,2)] show ?thesis by simp
qed

lemma find_new:
  assumes "graph_inv g" "\<forall>i < length (nodeToName g). toLower (nodeToName g ! i) \<noteq> toLower name"
  shows "find (\<lambda>p. toLower (fst p) = toLower name) (nameToNode g) = None"
proof -
  have "toLower (fst p) \<noteq> toLower name" if "p \<in> set (nameToNode g)" for p
  proof -
    from that have "fst p \<in> set (nodeToName g)"
      using assms(1) by (metis graph_inv_def image_eqI set_map)
    then obtain i where "i < length (nodeToName g)" "fst p = nodeToName g ! i"
      by (metis in_set_conv_nth)
    with assms(2) show ?thesis by simp
  qed
  then show ?thesis unfolding find_None_iff by blast
qed

lemma addLocation_existing:
  assumes "graph_inv g" "i < length (nodeToName g)" "toLower (nodeToName g ! i) = toLower name"
  shows "addLocation g name = (i, g)"
  by (simp add: addLocation_def find_existing[OF assms])

lemma addLocation_new:
  assumes "graph_inv g" "\<forall>i < length (nodeToName g). toLower (nodeToName g ! i) \<noteq> toLower name"
  shows "addLocation g name =
           (length (nodeToName g),
            g\<lparr>nameToNode := nameToNode g @ [(name, length (nodeToName g))],
              nodeToName := nodeToName g @ [name],
              adj := adj g @ [[]]\<rparr>)"
  by (simp add: addLocation_def find_new[OF assms] Let_def)

lemma addLocation_cases:
  assumes "graph_inv g"
  obtains (existing) i where "i < length (nodeToName g)" "toLower (nodeToName g ! i) = toLower name"
      "addLocation g name = (i, g)"
  | (new) "\<forall>i < length (nodeToName g). toLower (nodeToName g ! i) \<noteq> toLower name"
      "addLocation g name =
           (length (nodeToName g),
            g\<lparr>nameToNode := nameToNode g @ [(name, length (nodeToName g))],
              nodeToName := nodeToName g @ [name],
              adj := adj g @ [[]]\<rparr>)"
  using addLocation_existing[OF assms] addLocation_new[OF assms] by blast

lemma addLocation_inv:
  assumes "graph_inv g"
  shows "graph_inv (snd (addLocation g name)) \<and>
         fst (addLocation g name) < length (nodeToName (snd (addLocation g name))) \<and>
         toLower (nodeToName (snd (addLocation g name)) ! fst (addLocation g name)) = toLower name"
proof (cases name rule: addLocation_cases[OF assms, case_names existing new])
  case (existing i)
  with assms show ?thesis by simp
next
  case new
  have "toLower name \<notin> set (map toLower (nodeToName g))"
  proof
    assume "toLower name \<in> set (map toLower (nodeToName g))"
    then obtain i where "i < length (nodeToName g)" "map toLower (nodeToName g) ! i = toLower name"
      by (metis in_set_conv_nth length_map)
    with new(1) show False by simp
  qed
  with assms new(2) show ?thesis
    by (auto simp: graph_inv_def less_Suc_eq nth_append)
qed


subsection \<open>The adjacency lists\<close>

lemma map_fst_set_weight: "map fst (set_weight v w es) = map fst es"
  by (induction es) auto

lemma set_weight_other:
  "fst e \<noteq> v \<Longrightarrow> e \<in> set (set_weight v w es) \<longleftrightarrow> e \<in> set es"
  by (induction es) auto

lemma set_weight_hit:
  "\<exists>e \<in> set es. fst e = v \<Longrightarrow> (v, w) \<in> set (set_weight v w es)"
  by (induction es) auto

lemma set_weight_single:
  "count_list (map fst es) v \<le> 1 \<Longrightarrow> (v, w') \<in> set (set_weight v w es) \<Longrightarrow> w' = w"
proof (induction es)
  case Nil
  then show ?case by simp
next
  case (Cons e es)
  show ?case
  proof (cases "fst e = v")
    case True
    with Cons.prems(1) have "count_list (map fst es) v = 0" by simp
    then have "v \<notin> fst ` set es" by (simp add: count_list_0_iff)
    with True Cons.prems(2) show ?thesis by (auto simp: image_iff)
  next
    case False
    with Cons show ?thesis by auto
  qed
qed

lemma set_weight_miss:
  "\<not> (\<exists>e \<in> set es. fst e = v) \<Longrightarrow> set_weight v w es = es"
  by (induction es) auto

lemma length_addEdge_adj: "length (addEdge_adj u v w a) = length a"
  by (simp add: addEdge_adj_def Let_def)

lemma addEdge_adj_other:
  "x \<noteq> u \<Longrightarrow> x \<noteq> v \<Longrightarrow> addEdge_adj u v w a ! x = a ! x"
  by (simp add: addEdge_adj_def Let_def)

lemma map_fst_addEdge_adj_update:
  "\<exists>e \<in> set (a ! u). fst e = v \<Longrightarrow> x < length a \<Longrightarrow>
     map fst (addEdge_adj u v w a ! x) = map fst (a ! x)"
  by (cases "x = v"; cases "x = u") (auto simp: addEdge_adj_def Let_def map_fst_set_weight)

text \<open>The entries of the adjacency list of \<open>x\<close> whose neighbour is not the other end of
  the edge are untouched.\<close>

lemma addEdge_adj_keeps:
  assumes "u < length a" "v < length a" "x < length a" "\<not> (x = u \<and> fst e = v)" "\<not> (x = v \<and> fst e = u)"
  shows "e \<in> set (addEdge_adj u v w a ! x) \<longleftrightarrow> e \<in> set (a ! x)"
proof (cases "\<exists>e \<in> set (a ! u). fst e = v")
  case True
  then have d: "addEdge_adj u v w a =
      (a[u := set_weight v w (a ! u)])[v := set_weight u w ((a[u := set_weight v w (a ! u)]) ! v)]"
    by (simp add: addEdge_adj_def Let_def)
  show ?thesis
    using assms unfolding d
    by (cases "x = v"; cases "x = u") (auto simp: set_weight_other)
next
  case False
  then have d: "addEdge_adj u v w a =
      (a[u := a ! u @ [(v, w)]])[v := (a[u := a ! u @ [(v, w)]]) ! v @ [(u, w)]]"
    by (simp add: addEdge_adj_def Let_def)
  show ?thesis
    using assms unfolding d
    by (cases "x = v"; cases "x = u") auto
qed

lemma addEdge_adj_fst_bound:
  assumes "u < length a" "v < length a" "x < length a" "e \<in> set (addEdge_adj u v w a ! x)"
  shows "e \<in> set (a ! x) \<or> fst e = u \<or> fst e = v"
  using addEdge_adj_keeps[OF assms(1,2,3), of e w] assms(4) by blast


definition adj_sym :: "(nat \<times> int) list list \<Rightarrow> bool" where
  "adj_sym a = (\<forall>u < length a. \<forall>v < length a. \<forall>w. (v, w) \<in> set (a ! u) \<longleftrightarrow> (u, w) \<in> set (a ! v))"

definition adj_single :: "(nat \<times> int) list list \<Rightarrow> bool" where
  "adj_single a = (\<forall>u < length a. \<forall>v. v \<noteq> u \<longrightarrow> count_list (map fst (a ! u)) v \<le> 1)"

definition adj_loopfree :: "(nat \<times> int) list list \<Rightarrow> bool" where
  "adj_loopfree a = (\<forall>u < length a. u \<notin> fst ` set (a ! u))"

lemma adj_sym_exists:
  assumes "adj_sym a" "u < length a" "v < length a"
  shows "(\<exists>e \<in> set (a ! u). fst e = v) \<longleftrightarrow> (\<exists>e \<in> set (a ! v). fst e = u)"
proof -
  have "(\<exists>e \<in> set (a ! x). fst e = y) \<Longrightarrow> (\<exists>e \<in> set (a ! y). fst e = x)"
    if "x < length a" "y < length a" for x y
  proof -
    assume "\<exists>e \<in> set (a ! x). fst e = y"
    then obtain w where "(y, w) \<in> set (a ! x)" by (metis prod.collapse)
    with assms(1) that have "(x, w) \<in> set (a ! y)" by (simp add: adj_sym_def)
    then show ?thesis by force
  qed
  with assms(2,3) show ?thesis by blast
qed

lemma count_fst_0: "count_list (map fst es) v = 0 \<longleftrightarrow> \<not> (\<exists>e \<in> set es. fst e = v)"
  by (auto simp: count_list_0_iff image_iff)

lemma addEdge_adj_update_neq:
  assumes "u < length a" "v < length a" "u \<noteq> v" "\<exists>e \<in> set (a ! u). fst e = v"
  shows "addEdge_adj u v w a ! u = set_weight v w (a ! u)"
    and "addEdge_adj u v w a ! v = set_weight u w (a ! v)"
  using assms by (simp_all add: addEdge_adj_def Let_def)

lemma addEdge_adj_push_neq:
  assumes "u < length a" "v < length a" "u \<noteq> v" "\<not> (\<exists>e \<in> set (a ! u). fst e = v)"
  shows "addEdge_adj u v w a ! u = a ! u @ [(v, w)]"
    and "addEdge_adj u v w a ! v = a ! v @ [(u, w)]"
  using assms by (simp_all add: addEdge_adj_def Let_def)

lemma addEdge_adj_update_eq:
  assumes "u < length a" "\<exists>e \<in> set (a ! u). fst e = u"
  shows "addEdge_adj u u w a ! u = set_weight u w (set_weight u w (a ! u))"
  using assms by (simp add: addEdge_adj_def Let_def)

lemma addEdge_adj_push_eq:
  assumes "u < length a" "\<not> (\<exists>e \<in> set (a ! u). fst e = u)"
  shows "addEdge_adj u u w a ! u = a ! u @ [(u, w), (u, w)]"
  using assms by (simp add: addEdge_adj_def Let_def)

text \<open>After the call the edge is there with weight \<open>w\<close>, in both directions.\<close>

lemma addEdge_adj_has_edge:
  assumes "adj_sym a" "u < length a" "v < length a"
  shows "(v, w) \<in> set (addEdge_adj u v w a ! u)" and "(u, w) \<in> set (addEdge_adj u v w a ! v)"
proof -
  have "(v, w) \<in> set (addEdge_adj u v w a ! u) \<and> (u, w) \<in> set (addEdge_adj u v w a ! v)"
  proof (cases "u = v")
    case True
    show ?thesis
    proof (cases "\<exists>e \<in> set (a ! u). fst e = u")
      case h: True
      then have "\<exists>e \<in> set (set_weight u w (a ! u)). fst e = u"
        using set_weight_hit[of "a ! u" u w] by force
      then show ?thesis
        using True addEdge_adj_update_eq[OF assms(2) h, of w] set_weight_hit by simp
    next
      case False
      then show ?thesis using True addEdge_adj_push_eq[OF assms(2) False, of w] by simp
    qed
  next
    case False
    show ?thesis
    proof (cases "\<exists>e \<in> set (a ! u). fst e = v")
      case h: True
      then have "\<exists>e \<in> set (a ! v). fst e = u" using adj_sym_exists[OF assms] by simp
      with h show ?thesis
        using addEdge_adj_update_neq[OF assms(2,3) False h, of w] set_weight_hit by simp
    next
      case h: False
      then show ?thesis using addEdge_adj_push_neq[OF assms(2,3) False h, of w] by simp
    qed
  qed
  then show "(v, w) \<in> set (addEdge_adj u v w a ! u)" and "(u, w) \<in> set (addEdge_adj u v w a ! v)"
    by simp_all
qed

text \<open>Between two different locations the weight stored is the one of the last call.\<close>

lemma addEdge_adj_only_edge:
  assumes "adj_sym a" "adj_single a" "u < length a" "v < length a" "u \<noteq> v"
  shows "(v, w') \<in> set (addEdge_adj u v w a ! u) \<longleftrightarrow> w' = w"
    and "(u, w') \<in> set (addEdge_adj u v w a ! v) \<longleftrightarrow> w' = w"
proof -
  have cu: "count_list (map fst (a ! u)) v \<le> 1" and cv: "count_list (map fst (a ! v)) u \<le> 1"
    using assms by (auto simp: adj_single_def)
  have 1: "w' = w" if "(v, w') \<in> set (addEdge_adj u v w a ! u)"
  proof (cases "\<exists>e \<in> set (a ! u). fst e = v")
    case True
    with that show ?thesis
      using addEdge_adj_update_neq(1)[OF assms(3,4,5) True, of w] set_weight_single[OF cu] by simp
  next
    case False
    with that show ?thesis
      using addEdge_adj_push_neq(1)[OF assms(3,4,5) False, of w] by force
  qed
  have 2: "w' = w" if "(u, w') \<in> set (addEdge_adj u v w a ! v)"
  proof (cases "\<exists>e \<in> set (a ! u). fst e = v")
    case True
    with that show ?thesis
      using addEdge_adj_update_neq(2)[OF assms(3,4,5) True, of w] set_weight_single[OF cv] by simp
  next
    case False
    then have "\<not> (\<exists>e \<in> set (a ! v). fst e = u)"
      using adj_sym_exists[OF assms(1,3,4)] by simp
    with that show ?thesis
      using addEdge_adj_push_neq(2)[OF assms(3,4,5) False, of w] by force
  qed
  from 1 addEdge_adj_has_edge(1)[OF assms(1,3,4), of w]
  show "(v, w') \<in> set (addEdge_adj u v w a ! u) \<longleftrightarrow> w' = w" by blast
  from 2 addEdge_adj_has_edge(2)[OF assms(1,3,4), of w]
  show "(u, w') \<in> set (addEdge_adj u v w a ! v) \<longleftrightarrow> w' = w" by blast
qed

lemma addEdge_adj_sym:
  assumes "adj_sym a" "adj_single a" "u < length a" "v < length a"
  shows "adj_sym (addEdge_adj u v w a)"
  unfolding adj_sym_def
proof (intro allI impI)
  fix x y w'
  assume "x < length (addEdge_adj u v w a)" "y < length (addEdge_adj u v w a)"
  then have xy: "x < length a" "y < length a" by (simp_all add: length_addEdge_adj)
  let ?a' = "addEdge_adj u v w a"
  consider "x = y" | "x \<noteq> y" "x = u" "y = v" | "x \<noteq> y" "x = v" "y = u"
    | "x \<noteq> y" "\<not> (x = u \<and> y = v)" "\<not> (x = v \<and> y = u)" by blast
  then show "(y, w') \<in> set (?a' ! x) \<longleftrightarrow> (x, w') \<in> set (?a' ! y)"
  proof cases
    case 1
    then show ?thesis by simp
  next
    case 2
    then have "u \<noteq> v" by simp
    from addEdge_adj_only_edge[OF assms this, of w' w] 2 show ?thesis by simp
  next
    case 3
    then have "u \<noteq> v" by auto
    from addEdge_adj_only_edge[OF assms this, of w' w] 3 show ?thesis by simp
  next
    case 4
    have "(y, w') \<in> set (?a' ! x) \<longleftrightarrow> (y, w') \<in> set (a ! x)"
      using addEdge_adj_keeps[OF assms(3,4) xy(1), of "(y, w')" w] 4 by auto
    moreover have "(x, w') \<in> set (?a' ! y) \<longleftrightarrow> (x, w') \<in> set (a ! y)"
      using addEdge_adj_keeps[OF assms(3,4) xy(2), of "(x, w')" w] 4 by auto
    moreover have "(y, w') \<in> set (a ! x) \<longleftrightarrow> (x, w') \<in> set (a ! y)"
      using assms(1) xy by (simp add: adj_sym_def)
    ultimately show ?thesis by simp
  qed
qed


lemma addEdge_adj_single:
  assumes "adj_sym a" "adj_single a" "u < length a" "v < length a"
  shows "adj_single (addEdge_adj u v w a)"
  unfolding adj_single_def
proof (intro allI impI)
  fix x y
  assume "x < length (addEdge_adj u v w a)" and ne: "y \<noteq> x"
  then have x: "x < length a" by (simp add: length_addEdge_adj)
  have old: "count_list (map fst (a ! x)) y \<le> 1"
    using assms(2) x ne by (simp add: adj_single_def)
  show "count_list (map fst (addEdge_adj u v w a ! x)) y \<le> 1"
  proof (cases "\<exists>e \<in> set (a ! u). fst e = v")
    case True
    from map_fst_addEdge_adj_update[OF True x, of w] old show ?thesis by simp
  next
    case False
    then have c0: "count_list (map fst (a ! u)) v = 0" by (simp add: count_fst_0)
    show ?thesis
    proof (cases "u = v")
      case e: True
      with False have "\<not> (\<exists>e \<in> set (a ! u). fst e = u)" by simp
      from addEdge_adj_push_eq[OF assms(3) this, of w] e old ne
        addEdge_adj_other[of x u v w a]
      show ?thesis by (cases "x = u") auto
    next
      case n: False
      from False have "\<not> (\<exists>e \<in> set (a ! v). fst e = u)"
        using adj_sym_exists[OF assms(1,3,4)] by simp
      then have c1: "count_list (map fst (a ! v)) u = 0" by (simp add: count_fst_0)
      consider "x = u" | "x = v" | "x \<noteq> u" "x \<noteq> v" by blast
      then show ?thesis
      proof cases
        case 1
        with addEdge_adj_push_neq(1)[OF assms(3,4) n False, of w] old c0 show ?thesis
          by (cases "y = v") auto
      next
        case 2
        with addEdge_adj_push_neq(2)[OF assms(3,4) n False, of w] old c1 show ?thesis
          by (cases "y = u") auto
      next
        case 3
        with addEdge_adj_other[of x u v w a] old show ?thesis by simp
      qed
    qed
  qed
qed

lemma addEdge_adj_loopfree:
  assumes "adj_loopfree a" "u < length a" "v < length a" "u \<noteq> v"
  shows "adj_loopfree (addEdge_adj u v w a)"
  unfolding adj_loopfree_def
proof (intro allI impI)
  fix x
  assume "x < length (addEdge_adj u v w a)"
  then have x: "x < length a" by (simp add: length_addEdge_adj)
  show "x \<notin> fst ` set (addEdge_adj u v w a ! x)"
  proof
    assume "x \<in> fst ` set (addEdge_adj u v w a ! x)"
    then obtain e where e: "e \<in> set (addEdge_adj u v w a ! x)" "fst e = x" by auto
    with assms(4) have "\<not> (x = u \<and> fst e = v)" "\<not> (x = v \<and> fst e = u)" by auto
    from addEdge_adj_keeps[OF assms(2,3) x this, of w] e(1) have "e \<in> set (a ! x)" by simp
    with e(2) assms(1) x show False by (force simp: adj_loopfree_def)
  qed
qed

lemma addEdge_adj_bounded:
  assumes "\<forall>es \<in> set a. \<forall>e \<in> set es. fst e < n" "u < length a" "v < length a" "u < n" "v < n"
  shows "\<forall>es \<in> set (addEdge_adj u v w a). \<forall>e \<in> set es. fst e < n"
proof (intro ballI)
  fix es e
  assume "es \<in> set (addEdge_adj u v w a)" "e \<in> set es"
  then obtain x where x: "x < length a" "es = addEdge_adj u v w a ! x"
    by (metis in_set_conv_nth length_addEdge_adj)
  with \<open>e \<in> set es\<close> addEdge_adj_fst_bound[OF assms(2,3) x(1), of e w]
  have "e \<in> set (a ! x) \<or> fst e = u \<or> fst e = v" by simp
  moreover have "a ! x \<in> set a" using x(1) by simp
  ultimately show "fst e < n" using assms(1,4,5) by blast
qed


subsection \<open>Graph states\<close>

definition resolve :: "Graph \<Rightarrow> string \<Rightarrow> nat" where
  "resolve g name = node_of g (getActualLocationName g name)"

definition edges_inv :: "Graph \<Rightarrow> bool" where
  "edges_inv g = (graph_inv g \<and> adj_sym (adj g) \<and> adj_single (adj g))"

fun no_self_edge :: "graph_op \<Rightarrow> bool" where
  "no_self_edge (AddLocation name) = True"
| "no_self_edge (AddEdge a b w) = (toLower a \<noteq> toLower b)"

lemma edges_inv_empty: "edges_inv empty_graph"
  by (simp add: edges_inv_def graph_inv_def empty_graph_def adj_sym_def adj_single_def)

lemma distinct_names:
  "graph_inv g \<Longrightarrow> distinct (nodeToName g)"
  by (metis graph_inv_def distinct_map)

lemma node_of_nth:
  assumes "graph_inv g" "i < length (nodeToName g)"
  shows "node_of g (nodeToName g ! i) = i"
proof -
  from assms(1) have z: "nameToNode g = zip (nodeToName g) [0..<length (nodeToName g)]"
    by (metis graph_inv_def zip_map_fst_snd)
  have "map_of (zip (nodeToName g) [0..<length (nodeToName g)]) (nodeToName g ! i)
          = Some ([0..<length (nodeToName g)] ! i)"
    using assms distinct_names[OF assms(1)] by (intro map_of_zip_nth) simp_all
  with assms(2) show ?thesis by (simp add: node_of_def z)
qed

lemma resolve_existing:
  assumes "graph_inv g" "i < length (nodeToName g)" "toLower (nodeToName g ! i) = toLower name"
  shows "hasLocation g name" "getActualLocationName g name = nodeToName g ! i" "resolve g name = i"
  using find_existing[OF assms] node_of_nth[OF assms(1,2)]
  by (simp_all add: hasLocation_def getActualLocationName_def resolve_def)

lemma hasLocation_iff:
  assumes "graph_inv g"
  shows "hasLocation g name \<longleftrightarrow> (\<exists>i < length (nodeToName g). toLower (nodeToName g ! i) = toLower name)"
proof
  assume h: "hasLocation g name"
  show "\<exists>i < length (nodeToName g). toLower (nodeToName g ! i) = toLower name"
  proof (rule ccontr)
    assume "\<not> ?thesis"
    then have "\<forall>i < length (nodeToName g). toLower (nodeToName g ! i) \<noteq> toLower name" by blast
    from find_new[OF assms this] h show False by (simp add: hasLocation_def)
  qed
next
  assume "\<exists>i < length (nodeToName g). toLower (nodeToName g ! i) = toLower name"
  then show "hasLocation g name" using resolve_existing(1)[OF assms] by blast
qed

lemma addLocation_names_prefix:
  assumes "graph_inv g"
  shows "\<exists>ys. nodeToName (snd (addLocation g name)) = nodeToName g @ ys \<and>
              adj (snd (addLocation g name)) = adj g @ map (\<lambda>_. []) ys"
proof (cases name rule: addLocation_cases[OF assms, case_names existing new])
  case (existing i)
  then show ?thesis by simp
next
  case new
  then show ?thesis by simp
qed

lemma adj_sym_append_Nil:
  assumes "adj_sym a" "\<forall>es \<in> set a. \<forall>e \<in> set es. fst e < length a"
  shows "adj_sym (a @ [[]])"
  unfolding adj_sym_def
proof (intro allI impI)
  fix u v w
  assume "u < length (a @ [[]])" "v < length (a @ [[]])"
  then consider "u < length a" "v < length a" | "u = length a" | "v = length a"
    by (auto simp: less_Suc_eq)
  then show "(v, w) \<in> set ((a @ [[]]) ! u) \<longleftrightarrow> (u, w) \<in> set ((a @ [[]]) ! v)"
  proof cases
    case 1
    with assms(1) show ?thesis by (simp add: adj_sym_def nth_append)
  next
    case 2
    have "(u, w) \<notin> set ((a @ [[]]) ! v)"
    proof (cases "v < length a")
      case True
      then have "a ! v \<in> set a" by simp
      with assms(2) 2 have "(u, w) \<notin> set (a ! v)" by force
      with True show ?thesis by (simp add: nth_append)
    next
      case False
      with \<open>v < length (a @ [[]])\<close> show ?thesis by (simp add: nth_append)
    qed
    with 2 show ?thesis by simp
  next
    case 3
    have "(v, w) \<notin> set ((a @ [[]]) ! u)"
    proof (cases "u < length a")
      case True
      then have "a ! u \<in> set a" by simp
      with assms(2) 3 have "(v, w) \<notin> set (a ! u)" by force
      with True show ?thesis by (simp add: nth_append)
    next
      case False
      with \<open>u < length (a @ [[]])\<close> show ?thesis by (simp add: nth_append)
    qed
    with 3 show ?thesis by simp
  qed
qed

lemma adj_single_append_Nil: "adj_single a \<Longrightarrow> adj_single (a @ [[]])"
  by (auto simp: adj_single_def nth_append less_Suc_eq)

lemma adj_loopfree_append_Nil: "adj_loopfree a \<Longrightarrow> adj_loopfree (a @ [[]])"
  by (auto simp: adj_loopfree_def nth_append less_Suc_eq)

lemma addLocation_edges_inv:
  assumes "edges_inv g"
  shows "edges_inv (snd (addLocation g name))"
proof -
  from assms have gi: "graph_inv g" by (simp add: edges_inv_def)
  show ?thesis
  proof (cases name rule: addLocation_cases[OF gi, case_names existing new])
    case (existing i)
    with assms show ?thesis by simp
  next
    case new
    from gi have b: "\<forall>es \<in> set (adj g). \<forall>e \<in> set es. fst e < length (adj g)"
      by (simp add: graph_inv_def)
    from addLocation_inv[OF gi, of name] have "graph_inv (snd (addLocation g name))" by simp
    moreover have "adj (snd (addLocation g name)) = adj g @ [[]]" using new(2) by simp
    ultimately show ?thesis
      using assms adj_sym_append_Nil[OF _ b] adj_single_append_Nil
      by (simp add: edges_inv_def)
  qed
qed

lemma addLocation_loopfree:
  assumes "graph_inv g" "adj_loopfree (adj g)"
  shows "adj_loopfree (adj (snd (addLocation g name)))"
proof (cases name rule: addLocation_cases[OF assms(1), case_names existing new])
  case (existing i)
  with assms show ?thesis by simp
next
  case new
  with assms(2) adj_loopfree_append_Nil show ?thesis by simp
qed

text \<open>What \<open>addEdge\<close> does on a graph state: both names are resolved (and registered when
  new) and the adjacency lists of the two ids are updated.\<close>

lemma addEdge_result:
  assumes "edges_inv g"
  obtains u v g2 where
    "addEdge g a b w = Some (g2\<lparr>adj := addEdge_adj u v w (adj g2)\<rparr>)"
    "edges_inv g2" "u < length (nodeToName g2)" "v < length (nodeToName g2)"
    "toLower (nodeToName g2 ! u) = toLower a" "toLower (nodeToName g2 ! v) = toLower b"
    "g2 = snd (addLocation (snd (addLocation g a)) b)"
proof -
  obtain u g1 where 1: "addLocation g a = (u, g1)" by fastforce
  obtain v g2 where 2: "addLocation g1 b = (v, g2)" by fastforce
  from assms have gi: "graph_inv g" by (simp add: edges_inv_def)
  from addLocation_edges_inv[OF assms, of a] 1 have e1: "edges_inv g1" by simp
  then have gi1: "graph_inv g1" by (simp add: edges_inv_def)
  from addLocation_edges_inv[OF e1, of b] 2 have e2: "edges_inv g2" by simp
  then have gi2: "graph_inv g2" by (simp add: edges_inv_def)
  from addLocation_inv[OF gi, of a] 1
  have u: "u < length (nodeToName g1)" "toLower (nodeToName g1 ! u) = toLower a" by simp_all
  from addLocation_inv[OF gi1, of b] 2
  have v: "v < length (nodeToName g2)" "toLower (nodeToName g2 ! v) = toLower b" by simp_all
  from addLocation_names_prefix[OF gi1, of b] 2 obtain ys where
    "nodeToName g2 = nodeToName g1 @ ys" by auto
  with u have u2: "u < length (nodeToName g2)" "toLower (nodeToName g2 ! u) = toLower a"
    by (simp_all add: nth_append)
  from gi2 have "length (adj g2) = length (nodeToName g2)" by (simp add: graph_inv_def)
  with u2 v 1 2 have "addEdge g a b w = Some (g2\<lparr>adj := addEdge_adj u v w (adj g2)\<rparr>)"
    by (simp add: addEdge_def)
  moreover have "g2 = snd (addLocation (snd (addLocation g a)) b)" using 1 2 by simp
  ultimately show ?thesis using that e2 u2 v by blast
qed

lemma graph_inv_adj_update:
  assumes "graph_inv g2" "u < length (nodeToName g2)" "v < length (nodeToName g2)"
  shows "graph_inv (g2\<lparr>adj := addEdge_adj u v w (adj g2)\<rparr>)"
proof -
  from assms(1) have l: "length (adj g2) = length (nodeToName g2)"
    and b: "\<forall>es \<in> set (adj g2). \<forall>e \<in> set es. fst e < length (nodeToName g2)"
    by (simp_all add: graph_inv_def)
  from addEdge_adj_bounded[OF b _ _ assms(2,3), where w = w] assms(2,3) l
  have "\<forall>es \<in> set (addEdge_adj u v w (adj g2)). \<forall>e \<in> set es. fst e < length (nodeToName g2)"
    by simp
  with assms(1) l show ?thesis by (simp add: graph_inv_def length_addEdge_adj)
qed

lemma addEdge_edges_inv:
  assumes "edges_inv g"
  shows "\<exists>g'. addEdge g a b w = Some g' \<and> edges_inv g'"
proof -
  from addEdge_result[OF assms, of a b w] obtain u v g2 where r:
    "addEdge g a b w = Some (g2\<lparr>adj := addEdge_adj u v w (adj g2)\<rparr>)"
    "edges_inv g2" "u < length (nodeToName g2)" "v < length (nodeToName g2)"
    by blast
  from r(2) have gi: "graph_inv g2" and s: "adj_sym (adj g2)" "adj_single (adj g2)"
    and l: "length (adj g2) = length (nodeToName g2)"
    by (simp_all add: edges_inv_def graph_inv_def)
  from r(3,4) l have uv: "u < length (adj g2)" "v < length (adj g2)" by simp_all
  have "edges_inv (g2\<lparr>adj := addEdge_adj u v w (adj g2)\<rparr>)"
    using graph_inv_adj_update[OF gi r(3,4), of w]
      addEdge_adj_sym[OF s uv, of w] addEdge_adj_single[OF s uv, of w]
    by (simp add: edges_inv_def)
  with r(1) show ?thesis by simp
qed

lemma addEdge_loopfree:
  assumes "edges_inv g" "adj_loopfree (adj g)" "toLower a \<noteq> toLower b" "addEdge g a b w = Some g'"
  shows "adj_loopfree (adj g')"
proof -
  from addEdge_result[OF assms(1), of a b w] obtain u v g2 where r:
    "addEdge g a b w = Some (g2\<lparr>adj := addEdge_adj u v w (adj g2)\<rparr>)"
    "edges_inv g2" "u < length (nodeToName g2)" "v < length (nodeToName g2)"
    "toLower (nodeToName g2 ! u) = toLower a" "toLower (nodeToName g2 ! v) = toLower b"
    "g2 = snd (addLocation (snd (addLocation g a)) b)"
    by blast
  from assms(1) have gi: "graph_inv g" by (simp add: edges_inv_def)
  from addLocation_inv[OF gi, of a] have gi1: "graph_inv (snd (addLocation g a))" by simp
  have lf: "adj_loopfree (adj g2)"
    unfolding r(7) using addLocation_loopfree[OF gi1 addLocation_loopfree[OF gi assms(2)]] .
  from r(5,6) assms(3) have ne: "u \<noteq> v" by auto
  from r(2) have l: "length (adj g2) = length (nodeToName g2)"
    by (simp add: edges_inv_def graph_inv_def)
  from addEdge_adj_loopfree[OF lf _ _ ne, of w] r(3,4) l
  have "adj_loopfree (addEdge_adj u v w (adj g2))" by simp
  with r(1) assms(4) show ?thesis by auto
qed

lemma run_graph_inv:
  "edges_inv g \<Longrightarrow> \<exists>g'. run_graph g ops = Some g' \<and> edges_inv g'"
proof (induction ops arbitrary: g)
  case Nil
  then show ?case by simp
next
  case (Cons x ops)
  have "\<exists>g1. apply_graph_op g x = Some g1 \<and> edges_inv g1"
  proof (cases x)
    case (AddLocation name)
    with addLocation_edges_inv[OF Cons.prems, of name] show ?thesis by simp
  next
    case (AddEdge a b w)
    with addEdge_edges_inv[OF Cons.prems, of a b w] show ?thesis by simp
  qed
  then obtain g1 where g1: "apply_graph_op g x = Some g1" "edges_inv g1" by blast
  from Cons.IH[OF g1(2)] g1(1) show ?case by simp
qed

lemma run_graph_loopfree:
  "edges_inv g \<Longrightarrow> adj_loopfree (adj g) \<Longrightarrow> list_all no_self_edge ops \<Longrightarrow>
     \<exists>g'. run_graph g ops = Some g' \<and> edges_inv g' \<and> adj_loopfree (adj g')"
proof (induction ops arbitrary: g)
  case Nil
  then show ?case by simp
next
  case (Cons x ops)
  from Cons.prems(1) have gi: "graph_inv g" by (simp add: edges_inv_def)
  have "\<exists>g1. apply_graph_op g x = Some g1 \<and> edges_inv g1 \<and> adj_loopfree (adj g1)"
  proof (cases x)
    case (AddLocation name)
    with addLocation_edges_inv[OF Cons.prems(1), of name]
      addLocation_loopfree[OF gi Cons.prems(2), of name] show ?thesis by simp
  next
    case (AddEdge a b w)
    with Cons.prems(3) have ne: "toLower a \<noteq> toLower b" by simp
    from addEdge_edges_inv[OF Cons.prems(1), of a b w] obtain g1 where
      g1: "addEdge g a b w = Some g1" "edges_inv g1" by blast
    from addEdge_loopfree[OF Cons.prems(1,2) ne g1(1)] g1 AddEdge show ?thesis by simp
  qed
  then obtain g1 where g1: "apply_graph_op g x = Some g1" "edges_inv g1" "adj_loopfree (adj g1)"
    by blast
  from Cons.prems(3) have "list_all no_self_edge ops" by simp
  from Cons.IH[OF g1(2,3) this] g1(1) show ?case by simp
qed


lemma distinct_count_le_1: "(\<forall>x. count_list xs x \<le> 1) \<Longrightarrow> distinct xs"
proof (induction xs)
  case Nil
  then show ?case by simp
next
  case (Cons a xs)
  have "count_list xs x \<le> 1" for x
    using Cons.prems[rule_format, of x] by (simp split: if_splits)
  with Cons.IH have "distinct xs" by blast
  moreover have "a \<notin> set xs"
  proof
    assume "a \<in> set xs"
    then have "count_list xs a \<noteq> 0" by (simp add: count_list_0_iff)
    with Cons.prems[rule_format, of a] show False by simp
  qed
  ultimately show ?case by simp
qed

lemma adj_distinct:
  assumes "adj_single a" "adj_loopfree a" "u < length a"
  shows "distinct (map fst (a ! u))"
proof (rule distinct_count_le_1, rule allI)
  fix x
  show "count_list (map fst (a ! u)) x \<le> 1"
  proof (cases "x = u")
    case True
    from assms(2,3) have "u \<notin> set (map fst (a ! u))" by (simp add: adj_loopfree_def)
    with True show ?thesis by (simp add: count_list_0_iff)
  next
    case False
    with assms(1,3) show ?thesis by (simp add: adj_single_def)
  qed
qed

lemma filter_single:
  "distinct (map fst es) \<Longrightarrow> (v, w) \<in> set es \<Longrightarrow> filter (\<lambda>e. fst e = v) es = [(v, w)]"
proof (induction es)
  case Nil
  then show ?case by simp
next
  case (Cons e es)
  show ?case
  proof (cases "e = (v, w)")
    case True
    with Cons.prems(1) have "v \<notin> fst ` set es" by auto
    then have "filter (\<lambda>e. fst e = v) es = []" by (auto simp: filter_empty_conv)
    with True show ?thesis by simp
  next
    case False
    with Cons.prems(2) have m: "(v, w) \<in> set es" by simp
    then have "v \<in> fst ` set es" by force
    with Cons.prems(1) have "fst e \<noteq> v" by auto
    with Cons.IH m Cons.prems(1) show ?thesis by simp
  qed
qed

text \<open>The ids of the two names after the call, and the edge between them.\<close>

lemma addEdge_stores_edge:
  assumes "edges_inv g"
  shows "\<exists>g'. addEdge g a b w = Some g' \<and> edges_inv g' \<and> hasLocation g' a \<and> hasLocation g' b \<and>
           resolve g' a < length (adj g') \<and> resolve g' b < length (adj g') \<and>
           (toLower a \<noteq> toLower b \<longrightarrow> resolve g' a \<noteq> resolve g' b) \<and>
           (resolve g' b, w) \<in> set (adj g' ! resolve g' a) \<and>
           (resolve g' a, w) \<in> set (adj g' ! resolve g' b)"
proof -
  from addEdge_result[OF assms, of a b w] obtain u v g2 where r:
    "addEdge g a b w = Some (g2\<lparr>adj := addEdge_adj u v w (adj g2)\<rparr>)"
    "edges_inv g2" "u < length (nodeToName g2)" "v < length (nodeToName g2)"
    "toLower (nodeToName g2 ! u) = toLower a" "toLower (nodeToName g2 ! v) = toLower b"
    by blast
  let ?g' = "g2\<lparr>adj := addEdge_adj u v w (adj g2)\<rparr>"
  from addEdge_edges_inv[OF assms, of a b w] r(1) have e': "edges_inv ?g'" by simp
  then have gi': "graph_inv ?g'" by (simp add: edges_inv_def)
  from r(2) have s: "adj_sym (adj g2)" and l: "length (adj g2) = length (nodeToName g2)"
    by (simp_all add: edges_inv_def graph_inv_def)
  have u': "u < length (nodeToName ?g')" "toLower (nodeToName ?g' ! u) = toLower a"
    and v': "v < length (nodeToName ?g')" "toLower (nodeToName ?g' ! v) = toLower b"
    using r(3-6) by simp_all
  note ru = resolve_existing[OF gi' u'] and rv = resolve_existing[OF gi' v']
  from r(3,4) l have uv: "u < length (adj g2)" "v < length (adj g2)" by simp_all
  have "toLower a \<noteq> toLower b \<longrightarrow> u \<noteq> v" using r(5,6) by auto
  moreover note addEdge_adj_has_edge[OF s uv, of w]
  ultimately show ?thesis
    using r(1) e' ru rv uv by (simp add: length_addEdge_adj)
qed

lemma toLower_Mumbai: "toLower ''Mumbai'' = toLower ''mumbai''"
  by code_simp

lemma reachable_graph: "\<exists>g. run_graph empty_graph ops = Some g \<and> edges_inv g"
  by (rule run_graph_inv[OF edges_inv_empty])

text \<open>
  Claim C7. \<open>addLocation\<close> is case-insensitively idempotent: on every graph state, if a
  location whose name matches the argument case-insensitively exists, \<open>addLocation\<close> returns
  the id of that location and leaves the graph as it is, so that the name keeps the casing
  it was first inserted with; otherwise it assigns the next sequential id. In particular
  \<open>addLocation("Mumbai")\<close> followed by \<open>addLocation("mumbai")\<close> returns the same id both
  times.
\<close>
theorem addLocation_idempotent:
  "\<exists>g. run_graph empty_graph ops = Some g \<and>
     (\<forall>i < length (nodeToName g). toLower (nodeToName g ! i) = toLower name \<longrightarrow>
         addLocation g name = (i, g) \<and> getActualLocationName g name = nodeToName g ! i) \<and>
     ((\<forall>i < length (nodeToName g). toLower (nodeToName g ! i) \<noteq> toLower name) \<longrightarrow>
         addLocation g name =
           (length (nodeToName g),
            g\<lparr>nameToNode := nameToNode g @ [(name, length (nodeToName g))],
              nodeToName := nodeToName g @ [name],
              adj := adj g @ [[]]\<rparr>)) \<and>
     fst (addLocation (snd (addLocation g ''Mumbai'')) ''mumbai'') = fst (addLocation g ''Mumbai'') \<and>
     snd (addLocation (snd (addLocation g ''Mumbai'')) ''mumbai'') = snd (addLocation g ''Mumbai'')"
proof -
  from reachable_graph[of ops] obtain g where g: "run_graph empty_graph ops = Some g" "graph_inv g"
    by (auto simp: edges_inv_def)
  let ?g1 = "snd (addLocation g ''Mumbai'')" and ?i = "fst (addLocation g ''Mumbai'')"
  from addLocation_inv[OF g(2), of "''Mumbai''"]
  have 1: "graph_inv ?g1" "?i < length (nodeToName ?g1)"
    "toLower (nodeToName ?g1 ! ?i) = toLower ''mumbai''"
    by (simp_all add: toLower_Mumbai)
  from addLocation_existing[OF 1]
  have m: "addLocation ?g1 ''mumbai'' = (?i, ?g1)" .
  show ?thesis
    using g(1) addLocation_existing[OF g(2)] resolve_existing(2)[OF g(2)]
      addLocation_new[OF g(2), of name] m
    by (intro exI[of _ g]) simp
qed


theorem addLocation_idempotent_witness:
  "run_graph empty_graph [AddLocation ''Mumbai'', AddLocation ''Delhi'']
     = Some \<lparr>nameToNode = [(''Mumbai'', 0), (''Delhi'', 1)], nodeToName = [''Mumbai'', ''Delhi''],
             adj = [[], []]\<rparr>
   \<and> toLower ''Mumbai'' = toLower ''MUMBAI''
   \<and> addLocation \<lparr>nameToNode = [(''Mumbai'', 0), (''Delhi'', 1)], nodeToName = [''Mumbai'', ''Delhi''],
             adj = [[], []]\<rparr> ''MUMBAI''
     = (0, \<lparr>nameToNode = [(''Mumbai'', 0), (''Delhi'', 1)], nodeToName = [''Mumbai'', ''Delhi''],
             adj = [[], []]\<rparr>)
   \<and> getActualLocationName \<lparr>nameToNode = [(''Mumbai'', 0), (''Delhi'', 1)],
             nodeToName = [''Mumbai'', ''Delhi''], adj = [[], []]\<rparr> ''MUMBAI'' = ''Mumbai''
   \<and> toLower ''Mumbai'' \<noteq> toLower ''Pune'' \<and> toLower ''Delhi'' \<noteq> toLower ''Pune''
   \<and> addLocation \<lparr>nameToNode = [(''Mumbai'', 0), (''Delhi'', 1)], nodeToName = [''Mumbai'', ''Delhi''],
             adj = [[], []]\<rparr> ''Pune''
     = (2, \<lparr>nameToNode = [(''Mumbai'', 0), (''Delhi'', 1), (''Pune'', 2)],
             nodeToName = [''Mumbai'', ''Delhi'', ''Pune''], adj = [[], [], []]\<rparr>)"
proof -
  let ?g = "\<lparr>nameToNode = [(''Mumbai'', 0), (''Delhi'', 1)], nodeToName = [''Mumbai'', ''Delhi''],
             adj = [[], []]\<rparr>"
  have 1: "run_graph empty_graph [AddLocation ''Mumbai'', AddLocation ''Delhi''] = Some ?g"
    by code_simp
  have 2: "toLower ''Mumbai'' = toLower ''MUMBAI''" by code_simp
  have 3: "toLower ''Mumbai'' \<noteq> toLower ''Pune''" "toLower ''Delhi'' \<noteq> toLower ''Pune''"
    by code_simp+
  from addLocation_idempotent[of "[AddLocation ''Mumbai'', AddLocation ''Delhi'']" "''MUMBAI''",
      unfolded 1]
  obtain g where g: "Some ?g = Some g"
    "\<forall>i < length (nodeToName g). toLower (nodeToName g ! i) = toLower ''MUMBAI'' \<longrightarrow>
         addLocation g ''MUMBAI'' = (i, g) \<and> getActualLocationName g ''MUMBAI'' = nodeToName g ! i"
    by (elim exE conjE)
  from g(1) have eq: "g = ?g" by simp
  from g(2)[unfolded eq, rule_format, of 0] 2
  have 4: "addLocation ?g ''MUMBAI'' = (0, ?g)" "getActualLocationName ?g ''MUMBAI'' = ''Mumbai''"
    by simp_all
  from addLocation_idempotent[of "[AddLocation ''Mumbai'', AddLocation ''Delhi'']" "''Pune''",
      unfolded 1]
  obtain g' where g': "Some ?g = Some g'"
    "(\<forall>i < length (nodeToName g'). toLower (nodeToName g' ! i) \<noteq> toLower ''Pune'') \<longrightarrow>
         addLocation g' ''Pune'' =
           (length (nodeToName g'),
            g'\<lparr>nameToNode := nameToNode g' @ [(''Pune'', length (nodeToName g'))],
              nodeToName := nodeToName g' @ [''Pune''],
              adj := adj g' @ [[]]\<rparr>)"
    by (elim exE conjE)
  from g'(1) have eq': "g' = ?g" by simp
  have "\<forall>i < length (nodeToName ?g). toLower (nodeToName ?g ! i) \<noteq> toLower ''Pune''"
    using 3 by (simp add: less_Suc_eq)
  from g'(2)[unfolded eq', THEN mp, OF this]
  have 5: "addLocation ?g ''Pune''
     = (2, \<lparr>nameToNode = [(''Mumbai'', 0), (''Delhi'', 1), (''Pune'', 2)],
             nodeToName = [''Mumbai'', ''Delhi'', ''Pune''], adj = [[], [], []]\<rparr>)"
    by simp
  show ?thesis by (intro conjI 1 2 3 4 5)
qed

text \<open>
  Claim C2. On the graph with the locations A, B, C, D and the undirected edges A-B of
  weight 1400, A-C of weight 850, B-C of weight 2150 and C-D of weight 350,
  \<open>shortestPath(A, D)\<close> returns found, the path A, C, D and the distance 1200.
\<close>
theorem shortestPath_example:
  "run_graph empty_graph
     [AddLocation ''A'', AddLocation ''B'', AddLocation ''C'', AddLocation ''D'',
      AddEdge ''A'' ''B'' 1400, AddEdge ''A'' ''C'' 850, AddEdge ''B'' ''C'' 2150,
      AddEdge ''C'' ''D'' 350]
     = Some \<lparr>nameToNode = [(''A'', 0), (''B'', 1), (''C'', 2), (''D'', 3)],
             nodeToName = [''A'', ''B'', ''C'', ''D''],
             adj = [[(1, 1400), (2, 850)], [(0, 1400), (2, 2150)],
                    [(0, 850), (1, 2150), (3, 350)], [(2, 350)]]\<rparr>
   \<and> shortestPath \<lparr>nameToNode = [(''A'', 0), (''B'', 1), (''C'', 2), (''D'', 3)],
             nodeToName = [''A'', ''B'', ''C'', ''D''],
             adj = [[(1, 1400), (2, 850)], [(0, 1400), (2, 2150)],
                    [(0, 850), (1, 2150), (3, 350)], [(2, 350)]]\<rparr> ''A'' ''D''
     = Some (True, [''A'', ''C'', ''D''], 1200)"
proof (rule conjI)
  show "run_graph empty_graph
     [AddLocation ''A'', AddLocation ''B'', AddLocation ''C'', AddLocation ''D'',
      AddEdge ''A'' ''B'' 1400, AddEdge ''A'' ''C'' 850, AddEdge ''B'' ''C'' 2150,
      AddEdge ''C'' ''D'' 350]
     = Some \<lparr>nameToNode = [(''A'', 0), (''B'', 1), (''C'', 2), (''D'', 3)],
             nodeToName = [''A'', ''B'', ''C'', ''D''],
             adj = [[(1, 1400), (2, 850)], [(0, 1400), (2, 2150)],
                    [(0, 850), (1, 2150), (3, 350)], [(2, 350)]]\<rparr>"
    by code_simp
  show "shortestPath \<lparr>nameToNode = [(''A'', 0), (''B'', 1), (''C'', 2), (''D'', 3)],
             nodeToName = [''A'', ''B'', ''C'', ''D''],
             adj = [[(1, 1400), (2, 850)], [(0, 1400), (2, 2150)],
                    [(0, 850), (1, 2150), (3, 350)], [(2, 350)]]\<rparr> ''A'' ''D''
     = Some (True, [''A'', ''C'', ''D''], 1200)"
    by code_simp
qed

theorem shortestPath_example_witness:
  "shortestPath \<lparr>nameToNode = [(''A'', 0), (''B'', 1), (''C'', 2), (''D'', 3)],
             nodeToName = [''A'', ''B'', ''C'', ''D''],
             adj = [[(1, 1400), (2, 850)], [(0, 1400), (2, 2150)],
                    [(0, 850), (1, 2150), (3, 350)], [(2, 350)]]\<rparr> ''A'' ''D''
     = Some (True, [''A'', ''C'', ''D''], 1200)"
  using shortestPath_example by (rule conjunct2)

text \<open>
  Claim C3 says that \<open>addEdge\<close> rejects a weight that is not positive and a self-edge,
  without mutating the graph. \<^verbatim>\<open>Graph::addEdge\<close> returns \<^verbatim>\<open>void\<close> and tests neither: with
  the weights -5 and 0, and with the two names of one location, the call changes the graph.
\<close>
theorem addEdge_rejects_counterexample:
  "addEdge empty_graph ''A'' ''B'' (- 5)
     = Some \<lparr>nameToNode = [(''A'', 0), (''B'', 1)], nodeToName = [''A'', ''B''],
             adj = [[(1, - 5)], [(0, - 5)]]\<rparr>
   \<and> addEdge empty_graph ''A'' ''B'' 0
     = Some \<lparr>nameToNode = [(''A'', 0), (''B'', 1)], nodeToName = [''A'', ''B''],
             adj = [[(1, 0)], [(0, 0)]]\<rparr>
   \<and> addEdge empty_graph ''Mumbai'' ''mumbai'' 5
     = Some \<lparr>nameToNode = [(''Mumbai'', 0)], nodeToName = [''Mumbai''],
             adj = [[(0, 5), (0, 5)]]\<rparr>"
  by (intro conjI; code_simp)

text \<open>
  Claim C3 as amended: \<open>addEdge\<close> performs no validation. On every graph state, for all
  names and every integer weight (positive or not, the two names resolving to one location
  or to two), it returns with both names registered and with the weight stored on the edge
  between their ids, in both directions.
\<close>
theorem addEdge_accepts_everything:
  "\<exists>g g'. run_graph empty_graph ops = Some g \<and> addEdge g a b w = Some g' \<and>
     hasLocation g' a \<and> hasLocation g' b \<and>
     (resolve g' b, w) \<in> set (adj g' ! resolve g' a) \<and>
     (resolve g' a, w) \<in> set (adj g' ! resolve g' b)"
proof -
  from reachable_graph[of ops] obtain g where g: "run_graph empty_graph ops = Some g" "edges_inv g"
    by blast
  from addEdge_stores_edge[OF g(2), of a b w] g(1) show ?thesis by blast
qed

theorem addEdge_accepts_everything_witness:
  "run_graph empty_graph [AddLocation ''A''] = Some \<lparr>nameToNode = [(''A'', 0)], nodeToName = [''A''], adj = [[]]\<rparr>
   \<and> addEdge \<lparr>nameToNode = [(''A'', 0)], nodeToName = [''A''], adj = [[]]\<rparr> ''a'' ''B'' (- 5)
     = Some \<lparr>nameToNode = [(''A'', 0), (''B'', 1)], nodeToName = [''A'', ''B''],
             adj = [[(1, - 5)], [(0, - 5)]]\<rparr>
   \<and> hasLocation \<lparr>nameToNode = [(''A'', 0), (''B'', 1)], nodeToName = [''A'', ''B''],
             adj = [[(1, - 5)], [(0, - 5)]]\<rparr> ''a''
   \<and> hasLocation \<lparr>nameToNode = [(''A'', 0), (''B'', 1)], nodeToName = [''A'', ''B''],
             adj = [[(1, - 5)], [(0, - 5)]]\<rparr> ''B''
   \<and> (resolve \<lparr>nameToNode = [(''A'', 0), (''B'', 1)], nodeToName = [''A'', ''B''],
             adj = [[(1, - 5)], [(0, - 5)]]\<rparr> ''B'', - 5)
       \<in> set (adj \<lparr>nameToNode = [(''A'', 0), (''B'', 1)], nodeToName = [''A'', ''B''],
             adj = [[(1, - 5)], [(0, - 5)]]\<rparr>
            ! resolve \<lparr>nameToNode = [(''A'', 0), (''B'', 1)], nodeToName = [''A'', ''B''],
             adj = [[(1, - 5)], [(0, - 5)]]\<rparr> ''a'')"
proof -
  let ?g = "\<lparr>nameToNode = [(''A'', 0)], nodeToName = [''A''], adj = [[]]\<rparr>"
  let ?g' = "\<lparr>nameToNode = [(''A'', 0), (''B'', 1)], nodeToName = [''A'', ''B''],
             adj = [[(1, - 5)], [(0, - 5)]]\<rparr>"
  have 1: "run_graph empty_graph [AddLocation ''A''] = Some ?g" by code_simp
  have 2: "addEdge ?g ''a'' ''B'' (- 5) = Some ?g'" by code_simp
  from addEdge_accepts_everything[of "[AddLocation ''A'']" "''a''" "''B''" "- 5", unfolded 1]
  obtain g g' where o: "Some ?g = Some g" "addEdge g ''a'' ''B'' (- 5) = Some g'"
    "hasLocation g' ''a''" "hasLocation g' ''B''"
    "(resolve g' ''B'', - 5) \<in> set (adj g' ! resolve g' ''a'')"
    by (elim exE conjE)
  from o(1) have g: "g = ?g" by simp
  from o(2) 2 have g': "g' = ?g'" unfolding g by simp
  show ?thesis
    using o(3,4,5) unfolding g' by (intro conjI 1 2)
qed


lemma count_list_map_fst: "count_list (map fst es) v = length (filter (\<lambda>e. fst e = v) es)"
  by (induction es) simp_all

lemma filter_single_le:
  assumes "length (filter (\<lambda>e. fst e = v) es) \<le> 1" "(v, w) \<in> set es"
  shows "filter (\<lambda>e. fst e = v) es = [(v, w)]"
proof -
  from assms(2) have m: "(v, w) \<in> set (filter (\<lambda>e. fst e = v) es)" by simp
  then obtain x xs where c: "filter (\<lambda>e. fst e = v) es = x # xs"
    by (cases "filter (\<lambda>e. fst e = v) es") auto
  with assms(1) have "xs = []" by simp
  with c m show ?thesis by simp
qed

text \<open>
  Claim C4 says that after every sequence of \<open>addLocation\<close> and \<open>addEdge\<close> calls there is
  at most one adjacency entry per pair of locations. A call of \<open>addEdge\<close> with both names
  resolving to one location pushes two entries for that location onto its own list, and a
  second such call updates only the first of them.
\<close>
theorem adjacency_simple_counterexample:
  "run_graph empty_graph [AddEdge ''A'' ''A'' 5, AddEdge ''A'' ''A'' 7]
     = Some \<lparr>nameToNode = [(''A'', 0)], nodeToName = [''A''], adj = [[(0, 7), (0, 5)]]\<rparr>
   \<and> \<not> distinct (map fst (adj \<lparr>nameToNode = [(''A'', 0)], nodeToName = [''A''],
                                  adj = [[(0, 7), (0, 5)]]\<rparr> ! 0))"
  by (intro conjI; code_simp)

text \<open>
  Claim C4 as amended: after every sequence of \<open>addLocation\<close> and \<open>addEdge\<close> calls the
  adjacency is symmetric (\<open>(v, w)\<close> is in the list of \<open>u\<close> if and only if \<open>(u, w)\<close> is in
  the list of \<open>v\<close>), with at most one entry per pair of two different locations; and
  \<open>addEdge(A, B, w1)\<close> followed by \<open>addEdge(A, B, w2)\<close>, for two different locations, leaves
  exactly one entry for B in the list of A and one for A in the list of B, both with weight
  \<open>w2\<close>. If moreover no \<open>addEdge\<close> of the sequence names one location at both ends, no
  list holds two entries for one location, its own included.
\<close>
theorem adjacency_symmetric_simple:
  "\<exists>g. run_graph empty_graph ops = Some g \<and>
     (\<forall>u < length (adj g). \<forall>v < length (adj g). \<forall>w.
         (v, w) \<in> set (adj g ! u) \<longleftrightarrow> (u, w) \<in> set (adj g ! v)) \<and>
     (\<forall>u < length (adj g). \<forall>v. v \<noteq> u \<longrightarrow> length (filter (\<lambda>e. fst e = v) (adj g ! u)) \<le> 1) \<and>
     (list_all no_self_edge ops \<longrightarrow> (\<forall>u < length (adj g). distinct (map fst (adj g ! u)))) \<and>
     (\<forall>a b w1 w2. toLower a \<noteq> toLower b \<longrightarrow>
        (\<exists>g1 g2. addEdge g a b w1 = Some g1 \<and> addEdge g1 a b w2 = Some g2 \<and>
           filter (\<lambda>e. fst e = resolve g2 b) (adj g2 ! resolve g2 a) = [(resolve g2 b, w2)] \<and>
           filter (\<lambda>e. fst e = resolve g2 a) (adj g2 ! resolve g2 b) = [(resolve g2 a, w2)]))"
proof -
  from reachable_graph[of ops] obtain g where
    g: "run_graph empty_graph ops = Some g" "edges_inv g" by blast
  from g(2) have s: "adj_sym (adj g)" "adj_single (adj g)" by (simp_all add: edges_inv_def)
  have 1: "\<forall>u < length (adj g). \<forall>v < length (adj g). \<forall>w.
         (v, w) \<in> set (adj g ! u) \<longleftrightarrow> (u, w) \<in> set (adj g ! v)"
    using s(1) by (simp add: adj_sym_def)
  have 2: "\<forall>u < length (adj g). \<forall>v. v \<noteq> u \<longrightarrow> length (filter (\<lambda>e. fst e = v) (adj g ! u)) \<le> 1"
    using s(2) by (simp add: adj_single_def count_list_map_fst)
  have 3: "\<forall>u < length (adj g). distinct (map fst (adj g ! u))" if "list_all no_self_edge ops"
  proof -
    have lf0: "adj_loopfree (adj empty_graph)" by (simp add: adj_loopfree_def empty_graph_def)
    from run_graph_loopfree[OF edges_inv_empty lf0 that] obtain g' where
      g': "run_graph empty_graph ops = Some g'" "adj_loopfree (adj g')" by blast
    from g(1) g'(1) have "g' = g" by simp
    with g'(2) adj_distinct[OF s(2)] show ?thesis by blast
  qed
  have 4: "\<exists>g1 g2. addEdge g a b w1 = Some g1 \<and> addEdge g1 a b w2 = Some g2 \<and>
           filter (\<lambda>e. fst e = resolve g2 b) (adj g2 ! resolve g2 a) = [(resolve g2 b, w2)] \<and>
           filter (\<lambda>e. fst e = resolve g2 a) (adj g2 ! resolve g2 b) = [(resolve g2 a, w2)]"
    if ne: "toLower a \<noteq> toLower b" for a b w1 w2
  proof -
    from addEdge_stores_edge[OF g(2), of a b w1] obtain g1 where
      g1: "addEdge g a b w1 = Some g1" "edges_inv g1" by blast
    from addEdge_stores_edge[OF g1(2), of a b w2] obtain g2 where
      g2: "addEdge g1 a b w2 = Some g2" "edges_inv g2"
        "resolve g2 a < length (adj g2)" "resolve g2 b < length (adj g2)"
        "toLower a \<noteq> toLower b \<longrightarrow> resolve g2 a \<noteq> resolve g2 b"
        "(resolve g2 b, w2) \<in> set (adj g2 ! resolve g2 a)"
        "(resolve g2 a, w2) \<in> set (adj g2 ! resolve g2 b)" by blast
    from g2(5) ne have d: "resolve g2 a \<noteq> resolve g2 b" by simp
    from g2(2) have s2: "adj_single (adj g2)" by (simp add: edges_inv_def)
    from s2 g2(3) d have "length (filter (\<lambda>e. fst e = resolve g2 b) (adj g2 ! resolve g2 a)) \<le> 1"
      by (simp add: adj_single_def count_list_map_fst)
    from filter_single_le[OF this g2(6)]
    have f1: "filter (\<lambda>e. fst e = resolve g2 b) (adj g2 ! resolve g2 a) = [(resolve g2 b, w2)]" .
    from s2 g2(4) d have "length (filter (\<lambda>e. fst e = resolve g2 a) (adj g2 ! resolve g2 b)) \<le> 1"
      by (simp add: adj_single_def count_list_map_fst)
    from filter_single_le[OF this g2(7)]
    have f2: "filter (\<lambda>e. fst e = resolve g2 a) (adj g2 ! resolve g2 b) = [(resolve g2 a, w2)]" .
    from g1(1) g2(1) f1 f2 show ?thesis by blast
  qed
  from g(1) 1 2 3 4 show ?thesis by blast
qed

theorem adjacency_symmetric_simple_witness:
  "run_graph empty_graph [AddEdge ''A'' ''A'' 5, AddEdge ''a'' ''B'' 7, AddEdge ''B'' ''C'' 9] = Some \<lparr>nameToNode = [(''A'', 0), (''B'', 1), (''C'', 2)], nodeToName = [''A'', ''B'', ''C''], adj = [[(0, 5), (0, 5), (1, 7)], [(0, 7), (2, 9)], [(1, 9)]]\<rparr>
   \<and> \<not> list_all no_self_edge [AddEdge ''A'' ''A'' 5, AddEdge ''a'' ''B'' 7, AddEdge ''B'' ''C'' 9]
   \<and> ((1, 7) \<in> set ([[(0 :: nat, 5 :: int), (0, 5), (1, 7)], [(0, 7), (2, 9)], [(1, 9)]] ! 0)
        \<longleftrightarrow> (0, 7) \<in> set ([[(0 :: nat, 5 :: int), (0, 5), (1, 7)], [(0, 7), (2, 9)], [(1, 9)]] ! 1))
   \<and> length (filter (\<lambda>e. fst e = 1) ([[(0 :: nat, 5 :: int), (0, 5), (1, 7)], [(0, 7), (2, 9)], [(1, 9)]] ! 0)) \<le> 1
   \<and> toLower ''A'' \<noteq> toLower ''B''
   \<and> addEdge \<lparr>nameToNode = [(''A'', 0), (''B'', 1), (''C'', 2)], nodeToName = [''A'', ''B'', ''C''], adj = [[(0, 5), (0, 5), (1, 7)], [(0, 7), (2, 9)], [(1, 9)]]\<rparr> ''A'' ''B'' 100 = Some \<lparr>nameToNode = [(''A'', 0), (''B'', 1), (''C'', 2)], nodeToName = [''A'', ''B'', ''C''], adj = [[(0, 5), (0, 5), (1, 100)], [(0, 100), (2, 9)], [(1, 9)]]\<rparr>
   \<and> addEdge \<lparr>nameToNode = [(''A'', 0), (''B'', 1), (''C'', 2)], nodeToName = [''A'', ''B'', ''C''], adj = [[(0, 5), (0, 5), (1, 100)], [(0, 100), (2, 9)], [(1, 9)]]\<rparr> ''A'' ''B'' 200 = Some \<lparr>nameToNode = [(''A'', 0), (''B'', 1), (''C'', 2)], nodeToName = [''A'', ''B'', ''C''], adj = [[(0, 5), (0, 5), (1, 200)], [(0, 200), (2, 9)], [(1, 9)]]\<rparr>
   \<and> filter (\<lambda>e. fst e = 1) ([[(0 :: nat, 5 :: int), (0, 5), (1, 200)], [(0, 200), (2, 9)], [(1, 9)]] ! 0) = [(1, 200)]
   \<and> filter (\<lambda>e. fst e = 0) ([[(0 :: nat, 5 :: int), (0, 5), (1, 200)], [(0, 200), (2, 9)], [(1, 9)]] ! 1) = [(0, 200)]
   \<and> list_all no_self_edge [AddLocation ''A'', AddEdge ''a'' ''B'' 7, AddEdge ''B'' ''C'' 9]
   \<and> run_graph empty_graph [AddLocation ''A'', AddEdge ''a'' ''B'' 7, AddEdge ''B'' ''C'' 9] = Some \<lparr>nameToNode = [(''A'', 0), (''B'', 1), (''C'', 2)], nodeToName = [''A'', ''B'', ''C''], adj = [[(1, 7)], [(0, 7), (2, 9)], [(1, 9)]]\<rparr>
   \<and> distinct (map fst ([[(1 :: nat, 7 :: int)], [(0, 7), (2, 9)], [(1, 9)]] ! 1))"
proof -
  let ?ops = "[AddEdge ''A'' ''A'' 5, AddEdge ''a'' ''B'' 7, AddEdge ''B'' ''C'' 9]"
  let ?ops' = "[AddLocation ''A'', AddEdge ''a'' ''B'' 7, AddEdge ''B'' ''C'' 9]"
  let ?g = "\<lparr>nameToNode = [(''A'', 0), (''B'', 1), (''C'', 2)], nodeToName = [''A'', ''B'', ''C''], adj = [[(0, 5), (0, 5), (1, 7)], [(0, 7), (2, 9)], [(1, 9)]]\<rparr>"
  let ?g2 = "\<lparr>nameToNode = [(''A'', 0), (''B'', 1), (''C'', 2)], nodeToName = [''A'', ''B'', ''C''], adj = [[(0, 5), (0, 5), (1, 200)], [(0, 200), (2, 9)], [(1, 9)]]\<rparr>"
  let ?h = "\<lparr>nameToNode = [(''A'', 0), (''B'', 1), (''C'', 2)], nodeToName = [''A'', ''B'', ''C''], adj = [[(1, 7)], [(0, 7), (2, 9)], [(1, 9)]]\<rparr>"
  have f1: "run_graph empty_graph [AddEdge ''A'' ''A'' 5, AddEdge ''a'' ''B'' 7, AddEdge ''B'' ''C'' 9] = Some \<lparr>nameToNode = [(''A'', 0), (''B'', 1), (''C'', 2)], nodeToName = [''A'', ''B'', ''C''], adj = [[(0, 5), (0, 5), (1, 7)], [(0, 7), (2, 9)], [(1, 9)]]\<rparr>"
    by code_simp
  have f2: "\<not> list_all no_self_edge [AddEdge ''A'' ''A'' 5, AddEdge ''a'' ''B'' 7, AddEdge ''B'' ''C'' 9]"
    by code_simp
  have ft: "toLower ''A'' \<noteq> toLower ''B''"
    by code_simp
  have f3: "addEdge \<lparr>nameToNode = [(''A'', 0), (''B'', 1), (''C'', 2)], nodeToName = [''A'', ''B'', ''C''], adj = [[(0, 5), (0, 5), (1, 7)], [(0, 7), (2, 9)], [(1, 9)]]\<rparr> ''A'' ''B'' 100 = Some \<lparr>nameToNode = [(''A'', 0), (''B'', 1), (''C'', 2)], nodeToName = [''A'', ''B'', ''C''], adj = [[(0, 5), (0, 5), (1, 100)], [(0, 100), (2, 9)], [(1, 9)]]\<rparr>"
    by code_simp
  have f4: "addEdge \<lparr>nameToNode = [(''A'', 0), (''B'', 1), (''C'', 2)], nodeToName = [''A'', ''B'', ''C''], adj = [[(0, 5), (0, 5), (1, 100)], [(0, 100), (2, 9)], [(1, 9)]]\<rparr> ''A'' ''B'' 200 = Some \<lparr>nameToNode = [(''A'', 0), (''B'', 1), (''C'', 2)], nodeToName = [''A'', ''B'', ''C''], adj = [[(0, 5), (0, 5), (1, 200)], [(0, 200), (2, 9)], [(1, 9)]]\<rparr>"
    by code_simp
  have f10: "list_all no_self_edge [AddLocation ''A'', AddEdge ''a'' ''B'' 7, AddEdge ''B'' ''C'' 9]"
    by code_simp
  have f11: "run_graph empty_graph [AddLocation ''A'', AddEdge ''a'' ''B'' 7, AddEdge ''B'' ''C'' 9] = Some \<lparr>nameToNode = [(''A'', 0), (''B'', 1), (''C'', 2)], nodeToName = [''A'', ''B'', ''C''], adj = [[(1, 7)], [(0, 7), (2, 9)], [(1, 9)]]\<rparr>"
    by code_simp
  have 5: "resolve ?g2 ''A'' = 0" "resolve ?g2 ''B'' = 1" by code_simp+
  from adjacency_symmetric_simple[of ?ops, unfolded f1]
  obtain g where o: "Some ?g = Some g"
    "\<forall>u < length (adj g). \<forall>v < length (adj g). \<forall>w.
         (v, w) \<in> set (adj g ! u) \<longleftrightarrow> (u, w) \<in> set (adj g ! v)"
    "\<forall>u < length (adj g). \<forall>v. v \<noteq> u \<longrightarrow> length (filter (\<lambda>e. fst e = v) (adj g ! u)) \<le> 1"
    "\<forall>a b w1 w2. toLower a \<noteq> toLower b \<longrightarrow>
        (\<exists>g1 g2. addEdge g a b w1 = Some g1 \<and> addEdge g1 a b w2 = Some g2 \<and>
           filter (\<lambda>e. fst e = resolve g2 b) (adj g2 ! resolve g2 a) = [(resolve g2 b, w2)] \<and>
           filter (\<lambda>e. fst e = resolve g2 a) (adj g2 ! resolve g2 b) = [(resolve g2 a, w2)])"
    by (elim exE conjE)
  from o(1) have g: "g = ?g" by simp
  from o(2)[unfolded g, rule_format, of 0 1 7]
  have f6: "(1, 7) \<in> set ([[(0 :: nat, 5 :: int), (0, 5), (1, 7)], [(0, 7), (2, 9)], [(1, 9)]] ! 0) \<longleftrightarrow> (0, 7) \<in> set ([[(0 :: nat, 5 :: int), (0, 5), (1, 7)], [(0, 7), (2, 9)], [(1, 9)]] ! 1)"
    by simp
  from o(3)[unfolded g, rule_format, of 0 1]
  have f7: "length (filter (\<lambda>e. fst e = 1) ([[(0 :: nat, 5 :: int), (0, 5), (1, 7)], [(0, 7), (2, 9)], [(1, 9)]] ! 0)) \<le> 1"
    by simp
  from o(4)[unfolded g, rule_format, OF ft, of 100 200] obtain g1 g2 where
    p: "addEdge ?g ''A'' ''B'' 100 = Some g1" "addEdge g1 ''A'' ''B'' 200 = Some g2"
       "filter (\<lambda>e. fst e = resolve g2 ''B'') (adj g2 ! resolve g2 ''A'') = [(resolve g2 ''B'', 200)]"
       "filter (\<lambda>e. fst e = resolve g2 ''A'') (adj g2 ! resolve g2 ''B'') = [(resolve g2 ''A'', 200)]"
    by (elim exE conjE)
  from p(1) f3 have g1: "g1 = \<lparr>nameToNode = [(''A'', 0), (''B'', 1), (''C'', 2)], nodeToName = [''A'', ''B'', ''C''], adj = [[(0, 5), (0, 5), (1, 100)], [(0, 100), (2, 9)], [(1, 9)]]\<rparr>" by simp
  from p(2) f4 have g2: "g2 = ?g2" unfolding g1 by simp
  from p(3,4)[unfolded g2 5]
  have f8: "filter (\<lambda>e. fst e = 1) ([[(0 :: nat, 5 :: int), (0, 5), (1, 200)], [(0, 200), (2, 9)], [(1, 9)]] ! 0) = [(1, 200)]"
    and f9: "filter (\<lambda>e. fst e = 0) ([[(0 :: nat, 5 :: int), (0, 5), (1, 200)], [(0, 200), (2, 9)], [(1, 9)]] ! 1) = [(0, 200)]"
    by simp_all
  from adjacency_symmetric_simple[of ?ops', unfolded f11]
  obtain h where q: "Some ?h = Some h"
    "list_all no_self_edge ?ops' \<longrightarrow> (\<forall>u < length (adj h). distinct (map fst (adj h ! u)))"
    by (elim exE conjE)
  from q(1) have h: "h = ?h" by simp
  from q(2)[unfolded h, THEN mp, OF f10, rule_format, of 1]
  have f12: "distinct (map fst ([[(1 :: nat, 7 :: int)], [(0, 7), (2, 9)], [(1, 9)]] ! 1))"
    by simp
  show ?thesis by (intro conjI f1 f2 f6 f7 ft f3 f4 f8 f9 f10 f11 f12)
qed


subsection \<open>The main loop of shortestPath on weights that are not negative\<close>

definition wsum :: "(nat \<times> int) list \<Rightarrow> int" where
  "wsum es = sum_list (map snd es)"

definition weight_total :: "(nat \<times> int) list list \<Rightarrow> int" where
  "weight_total a = sum_list (map wsum a)"

definition nonneg_weights :: "(nat \<times> int) list list \<Rightarrow> bool" where
  "nonneg_weights a = list_all (list_all (\<lambda>e. 0 \<le> snd e)) a"

text \<open>The weights of the edges that leave the nodes visited so far.\<close>

definition wvisited :: "(nat \<times> int) list list \<Rightarrow> bool list \<Rightarrow> int" where
  "wvisited a vis = (\<Sum>i < length a. if vis ! i then wsum (a ! i) else 0)"

lemma sum_list_nonneg_member:
  fixes xs :: "int list"
  shows "\<forall>x \<in> set xs. 0 \<le> x \<Longrightarrow> x \<in> set xs \<Longrightarrow> x \<le> sum_list xs"
proof (induction xs)
  case Nil
  then show ?case by simp
next
  case (Cons a xs)
  then have "0 \<le> sum_list xs" "0 \<le> a" by (simp_all add: sum_list_nonneg)
  with Cons show ?case by auto
qed

lemma nonneg_weights_nth:
  assumes "nonneg_weights a" "u < length a" "e \<in> set (a ! u)"
  shows "0 \<le> snd e"
proof -
  from assms(2) have "a ! u \<in> set a" by simp
  with assms(1,3) show ?thesis by (auto simp: nonneg_weights_def list_all_iff)
qed

lemma wsum_nonneg:
  assumes "nonneg_weights a" "u < length a"
  shows "0 \<le> wsum (a ! u)"
  unfolding wsum_def
  by (rule sum_list_nonneg) (use nonneg_weights_nth[OF assms] in auto)

lemma weight_le_wsum:
  assumes "nonneg_weights a" "u < length a" "(v, w) \<in> set (a ! u)"
  shows "0 \<le> w" "w \<le> wsum (a ! u)"
proof -
  from nonneg_weights_nth[OF assms(1,2)] have nn: "\<forall>e \<in> set (a ! u). 0 \<le> snd e"
    by blast
  with assms(3) show "0 \<le> w" by force
  from nn have "\<forall>x \<in> set (map snd (a ! u)). 0 \<le> x" by simp
  moreover from assms(3) have "w \<in> set (map snd (a ! u))" by force
  ultimately show "w \<le> wsum (a ! u)" unfolding wsum_def by (rule sum_list_nonneg_member)
qed

lemma weight_total_sum: "weight_total a = (\<Sum>i < length a. wsum (a ! i))"
  by (simp add: weight_total_def sum_list_sum_nth atLeast0LessThan)

lemma wvisited_le_total:
  assumes "nonneg_weights a"
  shows "wvisited a vis \<le> weight_total a"
  unfolding wvisited_def weight_total_sum
  by (rule sum_mono) (use wsum_nonneg[OF assms] in auto)

lemma wvisited_nonneg:
  assumes "nonneg_weights a"
  shows "0 \<le> wvisited a vis"
  unfolding wvisited_def
  by (rule sum_nonneg) (use wsum_nonneg[OF assms] in auto)

lemma wvisited_update:
  assumes "u < length a" "u < length vis" "\<not> vis ! u"
  shows "wvisited a (vis[u := True]) = wvisited a vis + wsum (a ! u)"
proof -
  let ?f = "\<lambda>vs i. if vs ! i then wsum (a ! i) else 0"
  have fin: "finite {..<length a}" and mem: "u \<in> {..<length a}" using assms(1) by simp_all
  have "wvisited a (vis[u := True]) = ?f (vis[u := True]) u + sum (?f (vis[u := True])) ({..<length a} - {u})"
    unfolding wvisited_def by (rule sum.remove[OF fin mem])
  also have "sum (?f (vis[u := True])) ({..<length a} - {u}) = sum (?f vis) ({..<length a} - {u})"
    by (rule sum.cong) auto
  also have "?f (vis[u := True]) u = wsum (a ! u)" using assms(2) by simp
  finally have 1: "wvisited a (vis[u := True]) = wsum (a ! u) + sum (?f vis) ({..<length a} - {u})" .
  have "wvisited a vis = ?f vis u + sum (?f vis) ({..<length a} - {u})"
    unfolding wvisited_def by (rule sum.remove[OF fin mem])
  with assms(3) have 2: "wvisited a vis = sum (?f vis) ({..<length a} - {u})" by simp
  from 1 2 show ?thesis by simp
qed

text \<open>What the loops keep true: the source has distance 0 and no parent, and every finite
  distance is at most the bound \<open>B\<close>.\<close>

definition dist_ok :: "nat \<Rightarrow> nat \<Rightarrow> int \<Rightarrow> int list \<Rightarrow> int list \<Rightarrow> (int \<times> nat) list \<Rightarrow> bool" where
  "dist_ok n s B dist parent pq =
     (length dist = n \<and> length parent = n \<and> s < n \<and> dist ! s = 0 \<and> parent ! s = - 1 \<and>
      (\<forall>i < n. 0 \<le> dist ! i \<and> (dist ! i = INT_MAX \<or> dist ! i \<le> B)) \<and>
      (\<forall>p \<in> set pq. snd p < n \<and> dist ! snd p \<noteq> INT_MAX))"

lemma dist_ok_mono: "dist_ok n s B dist parent pq \<Longrightarrow> B \<le> B' \<Longrightarrow> dist_ok n s B' dist parent pq"
  by (fastforce simp: dist_ok_def)

lemma relax_ok:
  assumes "dist_ok n s B dist parent pq" "u < n" "B \<le> INT_MAX"
    and "\<forall>e \<in> set es. fst e < n \<and> 0 \<le> snd e \<and> dist ! u + snd e \<le> B"
  shows "\<exists>dist' parent' pq'. relax u es (dist, parent, pq) = Some (dist', parent', pq') \<and>
           dist_ok n s B dist' parent' pq' \<and> dist' ! u = dist ! u"
  using assms
proof (induction es arbitrary: dist parent pq)
  case Nil
  then show ?case by simp
next
  case (Cons e es)
  obtain v w where e: "e = (v, w)" by fastforce
  from Cons.prems(4) e have vw: "v < n" "0 \<le> w" "dist ! u + w \<le> B" by simp_all
  from Cons.prems(1) have len: "length dist = n" "length parent = n" by (simp_all add: dist_ok_def)
  from Cons.prems(1,2) have du: "0 \<le> dist ! u" by (simp add: dist_ok_def)
  let ?s = "dist ! u + w"
  have rng: "\<not> (?s < INT_MIN \<or> INT_MAX < ?s)"
    using vw du Cons.prems(3) by (simp add: INT_MIN_def)
  show ?case
  proof (cases "?s < dist ! v")
    case True
    let ?dist = "dist[v := ?s]" and ?parent = "parent[v := int u]" and ?pq = "pq @ [(?s, v)]"
    have vs: "v \<noteq> s" using True Cons.prems(1) du vw(2) by (auto simp: dist_ok_def)
    have vu: "v \<noteq> u" using True vw(2) by auto
    have sm: "?s \<noteq> INT_MAX"
    proof
      assume "?s = INT_MAX"
      moreover from Cons.prems(1) vw(1) have "dist ! v = INT_MAX \<or> dist ! v \<le> B"
        by (simp add: dist_ok_def)
      ultimately show False using True Cons.prems(3) by auto
    qed
    have ok: "dist_ok n s B ?dist ?parent ?pq"
      unfolding dist_ok_def
    proof (intro conjI)
      show "length ?dist = n" "length ?parent = n" using len by simp_all
      show "s < n" "?dist ! s = 0" "?parent ! s = - 1"
        using Cons.prems(1) vs by (simp_all add: dist_ok_def)
      show "\<forall>i < n. 0 \<le> ?dist ! i \<and> (?dist ! i = INT_MAX \<or> ?dist ! i \<le> B)"
      proof (intro allI impI)
        fix i assume "i < n"
        with Cons.prems(1) len vw du show "0 \<le> ?dist ! i \<and> (?dist ! i = INT_MAX \<or> ?dist ! i \<le> B)"
          by (cases "i = v") (simp_all add: dist_ok_def)
      qed
      show "\<forall>p \<in> set ?pq. snd p < n \<and> ?dist ! snd p \<noteq> INT_MAX"
      proof
        fix p assume "p \<in> set ?pq"
        then consider "p \<in> set pq" | "p = (?s, v)" by auto
        then show "snd p < n \<and> ?dist ! snd p \<noteq> INT_MAX"
        proof cases
          case 1
          with Cons.prems(1) have "snd p < n" "dist ! snd p \<noteq> INT_MAX" by (simp_all add: dist_ok_def)
          with sm len show ?thesis by (cases "snd p = v") simp_all
        next
          case 2
          with vw(1) sm len show ?thesis by simp
        qed
      qed
    qed
    have "\<forall>e \<in> set es. fst e < n \<and> 0 \<le> snd e \<and> ?dist ! u + snd e \<le> B"
      using Cons.prems(4) vu by simp
    from Cons.IH[OF ok Cons.prems(2,3) this] obtain dist' parent' pq' where
      r: "relax u es (?dist, ?parent, ?pq) = Some (dist', parent', pq')"
         "dist_ok n s B dist' parent' pq'" "dist' ! u = ?dist ! u" by blast
    have "relax u (e # es) (dist, parent, pq) = relax u es (?dist, ?parent, ?pq)"
      using e True rng len Cons.prems(2) vw(1) by (simp add: Let_def)
    with r vu show ?thesis by simp
  next
    case False
    have "\<forall>e \<in> set es. fst e < n \<and> 0 \<le> snd e \<and> dist ! u + snd e \<le> B"
      using Cons.prems(4) by simp
    from Cons.IH[OF Cons.prems(1,2,3) this] obtain dist' parent' pq' where
      r: "relax u es (dist, parent, pq) = Some (dist', parent', pq')"
         "dist_ok n s B dist' parent' pq'" "dist' ! u = dist ! u" by blast
    have "relax u (e # es) (dist, parent, pq) = relax u es (dist, parent, pq)"
      using e False rng len Cons.prems(2) vw(1) by (simp add: Let_def)
    with r show ?thesis by simp
  qed
qed


lemma dijkstra_loop_ok:
  assumes a: "length a = n" "nonneg_weights a" "\<forall>es \<in> set a. \<forall>e \<in> set es. fst e < n"
      "weight_total a \<le> INT_MAX"
    and "length visited = n" "dist_ok n s (wvisited a visited) dist parent pq"
  shows "\<exists>dist' parent'. dijkstra_loop a (dist, parent, visited, pq) = Some (dist', parent') \<and>
        length dist' = n \<and> length parent' = n \<and> dist' ! s = 0 \<and> parent' ! s = - 1"
  using assms
proof (induction a "(dist, parent, visited, pq)" arbitrary: dist parent visited pq
        rule: dijkstra_loop.induct)
  case (1 a dist parent visited pq)
  note a = "1.prems"(1-4) and lv = "1.prems"(5) and ok = "1.prems"(6)
  show ?case
  proof (cases "pq = []")
    case True
    with ok show ?thesis by (simp add: dist_ok_def)
  next
    case False
    let ?cur = "pq_top pq"
    let ?pq' = "remove1 ?cur pq"
    let ?u = "snd ?cur"
    from pq_top_mem[OF False] ok have u: "?u < n" "dist ! ?u \<noteq> INT_MAX"
      by (simp_all add: dist_ok_def)
    have ok': "dist_ok n s (wvisited a visited) dist parent ?pq'"
      using ok set_remove1_subset[of ?cur pq] by (auto simp: dist_ok_def)
    show ?thesis
    proof (cases "visited ! ?u")
      case True
      from "1.hyps"(1)[OF False refl refl refl _ True a lv ok'] u(1) lv a(1)
      obtain dist' parent' where
        "dijkstra_loop a (dist, parent, visited, ?pq') = Some (dist', parent')"
        "length dist' = n" "length parent' = n" "dist' ! s = 0" "parent' ! s = - 1"
        by auto
      moreover have "dijkstra_loop a (dist, parent, visited, pq)
                       = dijkstra_loop a (dist, parent, visited, ?pq')"
        using False True u(1) lv a(1) by (subst dijkstra_loop.simps) (simp add: Let_def)
      ultimately show ?thesis by simp
    next
      case nv: False
      let ?B = "wvisited a visited" and ?vis = "visited[?u := True]"
      let ?B' = "wvisited a ?vis"
      have B': "?B' = ?B + wsum (a ! ?u)"
        using wvisited_update[of ?u a visited] u(1) a(1) lv nv by simp
      have ws: "0 \<le> wsum (a ! ?u)" using wsum_nonneg[OF a(2)] u(1) a(1) by simp
      have okB: "dist_ok n s ?B' dist parent ?pq'"
        using dist_ok_mono[OF ok'] B' ws by simp
      have le: "?B' \<le> INT_MAX" using wvisited_le_total[OF a(2), of ?vis] a(4) by simp
      from ok u have duB: "dist ! ?u \<le> ?B" by (auto simp: dist_ok_def)
      have es: "\<forall>e \<in> set (a ! ?u). fst e < n \<and> 0 \<le> snd e \<and> dist ! ?u + snd e \<le> ?B'"
      proof
        fix e assume e: "e \<in> set (a ! ?u)"
        have "a ! ?u \<in> set a" using u(1) a(1) by simp
        with a(3) e have "fst e < n" by blast
        moreover from weight_le_wsum[OF a(2), of ?u "fst e" "snd e"] e u(1) a(1)
        have "0 \<le> snd e" "snd e \<le> wsum (a ! ?u)" by simp_all
        ultimately show "fst e < n \<and> 0 \<le> snd e \<and> dist ! ?u + snd e \<le> ?B'"
          using duB B' by simp
      qed
      from relax_ok[OF okB u(1) le es] obtain dist1 parent1 pq1 where
        r: "relax ?u (a ! ?u) (dist, parent, ?pq') = Some (dist1, parent1, pq1)"
           "dist_ok n s ?B' dist1 parent1 pq1" by blast
      have lv': "length ?vis = n" using lv by simp
      from "1.hyps"(2)[OF False refl refl refl _ nv r(1) refl refl a lv' r(2)] u(1) lv a(1)
      obtain dist' parent' where
        "dijkstra_loop a (dist1, parent1, ?vis, pq1) = Some (dist', parent')"
        "length dist' = n" "length parent' = n" "dist' ! s = 0" "parent' ! s = - 1"
        by auto
      moreover have "dijkstra_loop a (dist, parent, visited, pq)
                       = dijkstra_loop a (dist1, parent1, ?vis, pq1)"
        using False nv u(1) lv a(1) r(1) by (subst dijkstra_loop.simps) (simp add: Let_def)
      ultimately show ?thesis by simp
    qed
  qed
qed


lemma wvisited_replicate: "wvisited a (replicate (length a) False) = 0"
  unfolding wvisited_def by (rule sum.neutral) simp

lemma walk_root:
  assumes "i < length names" "i < length parent" "parent ! i = - 1"
  shows "walk names parent (int i) [] = Some (if names ! i \<noteq> [] then [names ! i] else [])"
proof -
  have "walk names parent (int i) []
          = walk names parent (- 1) (if names ! i \<noteq> [] then [] @ [names ! i] else [])"
    using assms by (subst walk.simps) simp
  also have "\<dots> = Some (if names ! i \<noteq> [] then [names ! i] else [])"
    by (subst walk.simps) simp
  finally show ?thesis .
qed

lemma shortestPath_self:
  assumes "graph_inv g" "hasLocation g x" "nonneg_weights (adj g)" "weight_total (adj g) \<le> INT_MAX"
  shows "shortestPath g x x =
           Some (True, if getActualLocationName g x \<noteq> [] then [getActualLocationName g x] else [], 0)"
proof -
  let ?n = "length (nodeToName g)"
  from assms(1,2) obtain i where i: "i < ?n" "toLower (nodeToName g ! i) = toLower x"
    by (auto simp: hasLocation_iff)
  let ?src = "nodeToName g ! i"
  note rx = resolve_existing[OF assms(1) i]
  have src: "getActualLocationName g x = ?src" by (rule rx(2))
  have hs: "hasLocation g ?src" by (rule resolve_existing(1)[OF assms(1) i(1) refl])
  have ns: "node_of g ?src = i" by (rule node_of_nth[OF assms(1) i(1)])
  from assms(1) have la: "length (adj g) = ?n"
    and b: "\<forall>es \<in> set (adj g). \<forall>e \<in> set es. fst e < ?n"
    by (simp_all add: graph_inv_def)
  let ?dist = "(replicate ?n INT_MAX)[i := 0]" and ?parent = "replicate ?n (- 1 :: int)"
  let ?vis = "replicate ?n False"
  have w0: "wvisited (adj g) ?vis = 0" using wvisited_replicate[of "adj g"] la by simp
  have ok: "dist_ok ?n i (wvisited (adj g) ?vis) ?dist ?parent [(0, i)]"
    unfolding w0 dist_ok_def using i(1) by (auto simp: nth_list_update INT_MAX_def)
  from dijkstra_loop_ok[OF la assms(3) b assms(4) _ ok]
  obtain dist' parent' where d:
    "dijkstra_loop (adj g) (?dist, ?parent, ?vis, [(0, i)]) = Some (dist', parent')"
    "length dist' = ?n" "length parent' = ?n" "dist' ! i = 0" "parent' ! i = - 1"
    by auto
  from walk_root[of i "nodeToName g" parent'] i(1) d(3,5)
  have w: "walk (nodeToName g) parent' (int i) []
             = Some (if ?src \<noteq> [] then [?src] else [])" by simp
  show ?thesis
    unfolding shortestPath_def src
    using hs ns i(1) d(1,4) w by (simp add: Let_def INT_MAX_def)
qed

text \<open>
  Claim C10 says that on every graph state \<open>shortestPath(X, X)\<close> for an existing location
  returns found, distance 0 and the one-element path of its canonical name. It does not on
  three kinds of states that the class can be in: a location whose name is the empty string
  is left out of the path; with a negative weight the distance of the source itself drops
  below 0 (and the parents form a cycle); with weights whose sum leaves the range of
  \<^verbatim>\<open>int\<close> the addition \<^verbatim>\<open>dist[u] + w\<close> overflows.
\<close>
theorem shortestPath_same_location_counterexample:
  "run_graph empty_graph [AddLocation ''''] = Some \<lparr>nameToNode = [('''', 0)], nodeToName = [''''], adj = [[]]\<rparr>
   \<and> hasLocation \<lparr>nameToNode = [('''', 0)], nodeToName = [''''], adj = [[]]\<rparr> ''''
   \<and> shortestPath \<lparr>nameToNode = [('''', 0)], nodeToName = [''''], adj = [[]]\<rparr> '''' ''''
       = Some (True, [], 0)
   \<and> run_graph empty_graph [AddEdge ''A'' ''B'' (- 5)]
       = Some \<lparr>nameToNode = [(''A'', 0), (''B'', 1)], nodeToName = [''A'', ''B''],
               adj = [[(1, - 5)], [(0, - 5)]]\<rparr>
   \<and> hasLocation \<lparr>nameToNode = [(''A'', 0), (''B'', 1)], nodeToName = [''A'', ''B''],
               adj = [[(1, - 5)], [(0, - 5)]]\<rparr> ''A''
   \<and> shortestPath \<lparr>nameToNode = [(''A'', 0), (''B'', 1)], nodeToName = [''A'', ''B''],
               adj = [[(1, - 5)], [(0, - 5)]]\<rparr> ''A'' ''A''
       \<noteq> Some (True, [''A''], 0)
   \<and> run_graph empty_graph [AddEdge ''A'' ''B'' 1073741824, AddEdge ''B'' ''C'' 1073741824]
       = Some \<lparr>nameToNode = [(''A'', 0), (''B'', 1), (''C'', 2)], nodeToName = [''A'', ''B'', ''C''],
               adj = [[(1, 1073741824)], [(0, 1073741824), (2, 1073741824)], [(1, 1073741824)]]\<rparr>
   \<and> shortestPath \<lparr>nameToNode = [(''A'', 0), (''B'', 1), (''C'', 2)], nodeToName = [''A'', ''B'', ''C''],
               adj = [[(1, 1073741824)], [(0, 1073741824), (2, 1073741824)], [(1, 1073741824)]]\<rparr>
         ''A'' ''A''
       = None"
proof -
  let ?g = "\<lparr>nameToNode = [(''A'', 0), (''B'', 1)], nodeToName = [''A'', ''B''],
               adj = [[(1, - 5)], [(0, - 5)]]\<rparr>"
  have 1: "getActualLocationName ?g ''A'' = ''A''" "hasLocation ?g ''A''" "node_of ?g ''A'' = 0"
    by code_simp+
  have 2: "dijkstra_loop (adj ?g) ((replicate 2 INT_MAX)[0 := 0], replicate 2 (- 1), replicate 2 False, [(0, 0)])
             = Some ([- 10, - 5], [1, 0])"
    by code_simp
  have 3: "shortestPath ?g ''A'' ''A'' \<noteq> Some (True, [''A''], 0)"
    unfolding shortestPath_def 1 Let_def
    using 2 by (simp add: INT_MAX_def split: option.splits)
  have 4: "run_graph empty_graph [AddLocation ''''] = Some \<lparr>nameToNode = [('''', 0)], nodeToName = [''''], adj = [[]]\<rparr>"
    by code_simp
  have 5: "hasLocation \<lparr>nameToNode = [('''', 0)], nodeToName = [''''], adj = [[]]\<rparr> ''''"
    by code_simp
  have 6: "shortestPath \<lparr>nameToNode = [('''', 0)], nodeToName = [''''], adj = [[]]\<rparr> '''' ''''
       = Some (True, [], 0)"
    by code_simp
  have 7: "run_graph empty_graph [AddEdge ''A'' ''B'' (- 5)] = Some ?g"
    by code_simp
  have 8: "run_graph empty_graph [AddEdge ''A'' ''B'' 1073741824, AddEdge ''B'' ''C'' 1073741824]
       = Some \<lparr>nameToNode = [(''A'', 0), (''B'', 1), (''C'', 2)], nodeToName = [''A'', ''B'', ''C''],
               adj = [[(1, 1073741824)], [(0, 1073741824), (2, 1073741824)], [(1, 1073741824)]]\<rparr>"
    by code_simp
  have 9: "shortestPath \<lparr>nameToNode = [(''A'', 0), (''B'', 1), (''C'', 2)], nodeToName = [''A'', ''B'', ''C''],
               adj = [[(1, 1073741824)], [(0, 1073741824), (2, 1073741824)], [(1, 1073741824)]]\<rparr>
         ''A'' ''A''
       = None"
    by code_simp
  show ?thesis by (intro conjI 4 5 6 7 1(2) 3 8 9)
qed

text \<open>
  Claim C10 as amended: on every graph state whose weights are all at least 0 and add up,
  over all adjacency lists, to at most \<^verbatim>\<open>INT_MAX\<close>, and for every name \<open>X\<close> that resolves
  case-insensitively to an existing location whose name is not empty, \<open>shortestPath(X, X)\<close>
  returns found with distance 0 and the path that consists of the canonical
  (first-inserted) name of \<open>X\<close> alone; the graph may have no edges.
\<close>
theorem shortestPath_same_location:
  "\<exists>g. run_graph empty_graph ops = Some g \<and>
     (hasLocation g x \<and> getActualLocationName g x \<noteq> [] \<and>
      nonneg_weights (adj g) \<and> weight_total (adj g) \<le> INT_MAX \<longrightarrow>
        shortestPath g x x = Some (True, [getActualLocationName g x], 0))"
proof -
  from reachable_graph[of ops] obtain g where g: "run_graph empty_graph ops = Some g" "graph_inv g"
    by (auto simp: edges_inv_def)
  from shortestPath_self[OF g(2), of x] g(1) show ?thesis by auto
qed

theorem shortestPath_same_location_witness:
  "run_graph empty_graph [AddLocation ''Mumbai'', AddEdge ''Delhi'' ''Pune'' 0]
     = Some \<lparr>nameToNode = [(''Mumbai'', 0), (''Delhi'', 1), (''Pune'', 2)],
             nodeToName = [''Mumbai'', ''Delhi'', ''Pune''], adj = [[], [(2, 0)], [(1, 0)]]\<rparr>
   \<and> hasLocation \<lparr>nameToNode = [(''Mumbai'', 0), (''Delhi'', 1), (''Pune'', 2)],
             nodeToName = [''Mumbai'', ''Delhi'', ''Pune''], adj = [[], [(2, 0)], [(1, 0)]]\<rparr> ''MUMBAI''
   \<and> getActualLocationName \<lparr>nameToNode = [(''Mumbai'', 0), (''Delhi'', 1), (''Pune'', 2)],
             nodeToName = [''Mumbai'', ''Delhi'', ''Pune''], adj = [[], [(2, 0)], [(1, 0)]]\<rparr> ''MUMBAI''
       = ''Mumbai''
   \<and> nonneg_weights [[], [(2, 0)], [(1, 0)]]
   \<and> weight_total [[], [(2, 0)], [(1, 0)]] \<le> INT_MAX
   \<and> shortestPath \<lparr>nameToNode = [(''Mumbai'', 0), (''Delhi'', 1), (''Pune'', 2)],
             nodeToName = [''Mumbai'', ''Delhi'', ''Pune''], adj = [[], [(2, 0)], [(1, 0)]]\<rparr>
        ''MUMBAI'' ''MUMBAI''
       = Some (True, [''Mumbai''], 0)"
proof -
  let ?g = "\<lparr>nameToNode = [(''Mumbai'', 0), (''Delhi'', 1), (''Pune'', 2)],
             nodeToName = [''Mumbai'', ''Delhi'', ''Pune''], adj = [[], [(2, 0)], [(1, 0)]]\<rparr>"
  have 1: "run_graph empty_graph [AddLocation ''Mumbai'', AddEdge ''Delhi'' ''Pune'' 0] = Some ?g"
    by code_simp
  have 2: "hasLocation ?g ''MUMBAI''" by code_simp
  have 3: "getActualLocationName ?g ''MUMBAI'' = ''Mumbai''" by code_simp
  have 4: "nonneg_weights [[], [(2, 0)], [(1, 0)]]" by code_simp
  have 5: "weight_total [[], [(2, 0)], [(1, 0)]] \<le> INT_MAX" by code_simp
  from shortestPath_same_location[of "[AddLocation ''Mumbai'', AddEdge ''Delhi'' ''Pune'' 0]" "''MUMBAI''",
      unfolded 1]
  obtain g where o: "Some ?g = Some g"
    "hasLocation g ''MUMBAI'' \<and> getActualLocationName g ''MUMBAI'' \<noteq> [] \<and>
      nonneg_weights (adj g) \<and> weight_total (adj g) \<le> INT_MAX \<longrightarrow>
        shortestPath g ''MUMBAI'' ''MUMBAI'' = Some (True, [getActualLocationName g ''MUMBAI''], 0)"
    by (elim exE conjE)
  from o(1) have g: "g = ?g" by simp
  have "hasLocation ?g ''MUMBAI'' \<and> getActualLocationName ?g ''MUMBAI'' \<noteq> [] \<and>
      nonneg_weights (adj ?g) \<and> weight_total (adj ?g) \<le> INT_MAX"
    using 2 3 4 5 by simp
  from o(2)[unfolded g, THEN mp, OF this]
  have 6: "shortestPath ?g ''MUMBAI'' ''MUMBAI'' = Some (True, [''Mumbai''], 0)"
    unfolding 3 .
  show ?thesis by (intro conjI 1 2 3 4 5 6)
qed


section \<open>The traversals\<close>

text \<open>The loop over \<^verbatim>\<open>adj[u]\<close> inside the loop of \<^verbatim>\<open>BFS\<close>: every neighbour not yet
  visited is marked and pushed onto the queue.\<close>

fun bfs_visit :: "(nat \<times> int) list \<Rightarrow> bool list \<times> nat list \<Rightarrow> (bool list \<times> nat list) option" where
  "bfs_visit [] s = Some s"
| "bfs_visit ((v, w) # es) (visited, q) =
     (if v < length visited then
        (if \<not> visited ! v then bfs_visit es (visited[v := True], q @ [v])
         else bfs_visit es (visited, q))
      else None)"

lemma unvisited_update_Suc:
  "u < length vis \<Longrightarrow> \<not> vis ! u \<Longrightarrow> Suc (unvisited (vis[u := True])) = unvisited vis"
proof (induction vis arbitrary: u)
  case Nil
  then show ?case by simp
next
  case (Cons b vis)
  then show ?case by (cases u) (auto simp: unvisited_def)
qed

lemma bfs_visit_measure:
  "bfs_visit es (vis, q) = Some (vis', q') \<Longrightarrow>
     unvisited vis' + length q' = unvisited vis + length q"
proof (induction es arbitrary: vis q)
  case Nil
  then show ?case by simp
next
  case (Cons e es)
  obtain v w where e: "e = (v, w)" by fastforce
  show ?case
  proof (cases "v < length vis \<and> \<not> vis ! v")
    case True
    with Cons.prems e have "bfs_visit es (vis[v := True], q @ [v]) = Some (vis', q')" by simp
    from Cons.IH[OF this] unvisited_update_Suc[of v vis] True show ?thesis by simp
  next
    case False
    with Cons.prems e have "bfs_visit es (vis, q) = Some (vis', q')"
      by (auto split: if_splits)
    from Cons.IH[OF this] show ?thesis .
  qed
qed

text \<open>The loop \<^verbatim>\<open>while (!q.empty())\<close> of \<^verbatim>\<open>BFS\<close>.\<close>

function bfs_loop :: "(nat \<times> int) list list \<Rightarrow> string list
    \<Rightarrow> bool list \<times> nat list \<times> string list \<Rightarrow> string list option" where
  "bfs_loop a names (visited, [], result) = Some result"
| "bfs_loop a names (visited, u # q, result) =
     (if u < length names \<and> u < length a then
        (case bfs_visit (a ! u) (visited, q) of
           None \<Rightarrow> None
         | Some (visited', q') \<Rightarrow> bfs_loop a names (visited', q', result @ [names ! u]))
      else None)"
  by pat_completeness auto
termination
proof (relation "measure (\<lambda>(a, names, visited, q, result). unvisited visited + length q)", goal_cases)
  case 1
  show ?case by simp
next
  case (2 a names visited u q result x2 visited' q')
  from bfs_visit_measure[of "a ! u" visited q visited' q'] 2 show ?case by simp
qed

definition BFS :: "Graph \<Rightarrow> string \<Rightarrow> string list option" where
  "BFS g startName =
     (if \<not> hasLocation g startName then Some []
      else
        (let start = node_of g (getActualLocationName g startName);
             n = length (nodeToName g);
             visited = replicate n False
         in if start < n then
              bfs_loop (adj g) (nodeToName g) (visited[start := True], [start], [])
            else None))"

text \<open>\<^verbatim>\<open>DFSHelper\<close> and its loop over \<^verbatim>\<open>adj[u]\<close>, which calls \<^verbatim>\<open>DFSHelper\<close> again on
  every neighbour that is not yet visited when its turn comes. \<^verbatim>\<open>visited\<close> and \<^verbatim>\<open>result\<close>
  are passed by reference: the functions return them.\<close>

function DFSHelper :: "(nat \<times> int) list list \<Rightarrow> string list \<Rightarrow> nat
      \<Rightarrow> bool list \<times> string list \<Rightarrow> (bool list \<times> string list) option"
  and DFSHelper_edges :: "(nat \<times> int) list list \<Rightarrow> string list \<Rightarrow> (nat \<times> int) list
      \<Rightarrow> bool list \<times> string list \<Rightarrow> (bool list \<times> string list) option" where
  "DFSHelper a names u (visited, result) =
     (if u < length visited \<and> u < length names \<and> u < length a then
        DFSHelper_edges a names (a ! u) (visited[u := True], result @ [names ! u])
      else None)"
| "DFSHelper_edges a names [] s = Some s"
| "DFSHelper_edges a names ((v, w) # es) (visited, result) =
     (if v < length visited then
        (if \<not> visited ! v then
           (case DFSHelper a names v (visited, result) of
              None \<Rightarrow> None
            | Some s' \<Rightarrow> DFSHelper_edges a names es s')
         else DFSHelper_edges a names es (visited, result))
      else None)"
  by pat_completeness auto

lemma unvisited_update_le: "unvisited (vis[u := True]) \<le> unvisited vis"
proof (cases "u < length vis")
  case True
  show ?thesis
  proof (cases "vis ! u")
    case t: True
    with True have "vis[u := True] = vis" by (metis list_update_id)
    then show ?thesis by simp
  next
    case False
    with True unvisited_update[of u vis] show ?thesis by simp
  qed
next
  case False
  then show ?thesis by (simp add: list_update_beyond not_less)
qed

lemma DFSHelper_unvisited:
  "DFSHelper_DFSHelper_edges_dom (Inl (a, names, u, s)) \<Longrightarrow>
     \<forall>vis' res'. DFSHelper a names u s = Some (vis', res') \<longrightarrow>
        unvisited vis' \<le> unvisited ((fst s)[u := True])"
  "DFSHelper_DFSHelper_edges_dom (Inr (a, names, es, s)) \<Longrightarrow>
     \<forall>vis' res'. DFSHelper_edges a names es s = Some (vis', res') \<longrightarrow>
        unvisited vis' \<le> unvisited (fst s)"
proof (induct a names u s and a names es s rule: DFSHelper_DFSHelper_edges.pinduct)
  case (1 a names u visited result)
  show ?case
  proof (intro allI impI)
    fix vis' res'
    assume r: "DFSHelper a names u (visited, result) = Some (vis', res')"
    with "1.hyps"(1) have c: "u < length visited \<and> u < length names \<and> u < length a"
      and e: "DFSHelper_edges a names (a ! u) (visited[u := True], result @ [names ! u]) = Some (vis', res')"
      by (auto simp: DFSHelper.psimps split: if_splits)
    from "1.hyps"(2)[OF c] e show "unvisited vis' \<le> unvisited ((fst (visited, result))[u := True])"
      by simp
  qed
next
  case (2 a names s)
  then show ?case by (simp add: DFSHelper_edges.psimps)
next
  case (3 a names v w es visited result)
  show ?case
  proof (intro allI impI)
    fix vis' res'
    assume r: "DFSHelper_edges a names ((v, w) # es) (visited, result) = Some (vis', res')"
    with "3.hyps"(1) have v: "v < length visited"
      by (auto simp: DFSHelper_edges.psimps split: if_splits)
    show "unvisited vis' \<le> unvisited (fst (visited, result))"
    proof (cases "visited ! v")
      case True
      with r "3.hyps"(1) v have "DFSHelper_edges a names es (visited, result) = Some (vis', res')"
        by (simp add: DFSHelper_edges.psimps)
      with "3.hyps"(4)[OF v] True show ?thesis by simp
    next
      case False
      with r "3.hyps"(1) v obtain vis1 res1 where
        h: "DFSHelper a names v (visited, result) = Some (vis1, res1)"
        and e: "DFSHelper_edges a names es (vis1, res1) = Some (vis', res')"
        by (auto simp: DFSHelper_edges.psimps split: option.splits)
      from "3.hyps"(2)[OF v False] h have "unvisited vis1 \<le> unvisited (visited[v := True])"
        by simp
      moreover from "3.hyps"(3)[OF v False h] e have "unvisited vis' \<le> unvisited vis1" by simp
      ultimately show ?thesis using unvisited_update_le[of visited v] by simp
    qed
  qed
qed

termination DFSHelper
proof (relation "inv_image (less_than <*lex*> less_than)
         (\<lambda>x. case x of
                 Inl (a, names, u, vis, res) \<Rightarrow> (unvisited (vis[u := True]), length (a ! u) + 1)
               | Inr (a, names, es, vis, res) \<Rightarrow> (unvisited vis, length es))", goal_cases)
  case 1
  show ?case by (intro wf_inv_image wf_lex_prod wf_less_than)
next
  case (2 a names u visited result)
  then show ?case by simp
next
  case (3 a names v w es visited result)
  then show ?case using unvisited_update[of v visited] by simp
next
  case (4 a names v w es visited result s')
  obtain vis1 res1 where s': "s' = (vis1, res1)" by fastforce
  from DFSHelper_unvisited(1)[OF 4(4)] 4(3) s'
  have "unvisited vis1 \<le> unvisited (visited[v := True])" by simp
  with unvisited_update[of v visited] 4(1,2) s' show ?case by simp
next
  case (5 a names v w es visited result)
  then show ?case by simp
qed

definition DFS :: "Graph \<Rightarrow> string \<Rightarrow> string list option" where
  "DFS g startName =
     (if \<not> hasLocation g startName then Some []
      else
        (let start = node_of g (getActualLocationName g startName);
             n = length (nodeToName g);
             visited = replicate n False
         in map_option snd (DFSHelper (adj g) (nodeToName g) start (visited, []))))"


subsection \<open>What the traversals visit\<close>

text \<open>The set of the nodes marked in \<^verbatim>\<open>visited\<close>, the neighbours of a node, and
  connectedness: every location is reachable from every other along the adjacency lists.\<close>

definition vset :: "bool list \<Rightarrow> nat set" where
  "vset vis = {i. i < length vis \<and> vis ! i}"

definition nbrs :: "(nat \<times> int) list list \<Rightarrow> nat \<Rightarrow> nat set" where
  "nbrs a x = fst ` set (a ! x)"

definition edge_rel :: "(nat \<times> int) list list \<Rightarrow> (nat \<times> nat) set" where
  "edge_rel a = {(x, y). x < length a \<and> y \<in> nbrs a x}"

definition connected :: "Graph \<Rightarrow> bool" where
  "connected g =
     (\<forall>u < length (nodeToName g). \<forall>v < length (nodeToName g). (u, v) \<in> (edge_rel (adj g))\<^sup>*)"

lemma vset_update: "v < length vis \<Longrightarrow> vset (vis[v := True]) = insert v (vset vis)"
  by (auto simp: vset_def nth_list_update)

lemma vset_replicate: "vset (replicate n False) = {}"
  by (auto simp: vset_def)

lemma vset_less: "x \<in> vset vis \<Longrightarrow> x < length vis"
  by (simp add: vset_def)

lemma closed_reachable:
  assumes "(s, v) \<in> (edge_rel a)\<^sup>*" "s \<in> S" "\<forall>x \<in> S. nbrs a x \<subseteq> S"
  shows "v \<in> S"
  using assms(1)
proof (induction rule: rtrancl_induct)
  case base
  show ?case by (rule assms(2))
next
  case (step y z)
  then have "z \<in> nbrs a y" by (simp add: edge_rel_def)
  with step.IH assms(3) show ?case by blast
qed

lemma bfs_visit_spec:
  assumes "\<forall>e \<in> set es. fst e < length vis"
  shows "\<exists>vis' new. bfs_visit es (vis, q) = Some (vis', q @ new) \<and> length vis' = length vis \<and>
           distinct new \<and> set new \<inter> vset vis = {} \<and> vset vis' = vset vis \<union> set new \<and>
           fst ` set es \<subseteq> vset vis'"
  using assms
proof (induction es arbitrary: vis q)
  case Nil
  show ?case by (intro exI[of _ vis] exI[of _ "[]"]) simp
next
  case (Cons e es)
  obtain v w where e: "e = (v, w)" by fastforce
  from Cons.prems e have v: "v < length vis" and es: "\<forall>e \<in> set es. fst e < length vis" by simp_all
  show ?case
  proof (cases "vis ! v")
    case True
    from Cons.IH[OF es, of q] obtain vis' new where
      r: "bfs_visit es (vis, q) = Some (vis', q @ new)" "length vis' = length vis"
         "distinct new" "set new \<inter> vset vis = {}" "vset vis' = vset vis \<union> set new"
         "fst ` set es \<subseteq> vset vis'" by blast
    from True v have "v \<in> vset vis" by (simp add: vset_def)
    with r e show ?thesis
      using True v by (intro exI[of _ vis'] exI[of _ new]) auto
  next
    case False
    let ?vis = "vis[v := True]"
    from es have "\<forall>e \<in> set es. fst e < length ?vis" by simp
    from Cons.IH[OF this, of "q @ [v]"] obtain vis' new where
      r: "bfs_visit es (?vis, q @ [v]) = Some (vis', (q @ [v]) @ new)" "length vis' = length ?vis"
         "distinct new" "set new \<inter> vset ?vis = {}" "vset vis' = vset ?vis \<union> set new"
         "fst ` set es \<subseteq> vset vis'" by blast
    have vs: "vset ?vis = insert v (vset vis)" by (rule vset_update[OF v])
    from False have nv: "v \<notin> vset vis" by (simp add: vset_def)
    have "bfs_visit (e # es) (vis, q) = Some (vis', q @ (v # new))"
      using e v False r(1) by simp
    moreover have "distinct (v # new)" using r(3,4) vs by auto
    moreover have "set (v # new) \<inter> vset vis = {}" using r(4) vs nv by auto
    moreover have "vset vis' = vset vis \<union> set (v # new)" using r(5) vs by auto
    moreover have "fst ` set (e # es) \<subseteq> vset vis'" using r(5,6) vs e by auto
    ultimately show ?thesis using r(2) by (intro exI[of _ vis'] exI[of _ "v # new"]) simp
  qed
qed

lemma bfs_loop_spec:
  assumes "length a = n" "length names = n" "\<forall>es \<in> set a. \<forall>e \<in> set es. fst e < n"
    and "length vis = n" "distinct (ids @ q)" "set (ids @ q) = vset vis"
        "\<forall>x \<in> set ids. nbrs a x \<subseteq> vset vis" "result = map (nth names) ids"
  shows "\<exists>ids'. bfs_loop a names (vis, q, result) = Some (map (nth names) ids') \<and>
           distinct ids' \<and> set ids \<union> set q \<subseteq> set ids' \<and>
           (\<forall>x \<in> set ids'. x < n \<and> nbrs a x \<subseteq> set ids')"
  using assms
proof (induction a names "(vis, q, result)" arbitrary: vis q result ids rule: bfs_loop.induct)
  case (1 a names visited result)
  have "\<forall>x \<in> set ids. x < n \<and> nbrs a x \<subseteq> set ids"
    using "1.prems"(4,6,7) vset_less[of _ visited] by auto
  with "1.prems"(5,8) show ?case by (intro exI[of _ ids]) simp
next
  case (2 a names visited u q result)
  note a = "2.prems"(1-3) and lv = "2.prems"(4)
  from "2.prems"(6) have "u \<in> vset visited" by auto
  with lv have u: "u < n" using vset_less by blast
  have "a ! u \<in> set a" using u a(1) by simp
  with a(3) lv have "\<forall>e \<in> set (a ! u). fst e < length visited" by simp
  from bfs_visit_spec[OF this, of q] obtain vis' new where
    r: "bfs_visit (a ! u) (visited, q) = Some (vis', q @ new)" "length vis' = length visited"
       "distinct new" "set new \<inter> vset visited = {}" "vset vis' = vset visited \<union> set new"
       "fst ` set (a ! u) \<subseteq> vset vis'" by blast
  let ?ids = "ids @ [u]"
  have d: "distinct (?ids @ (q @ new))"
    using "2.prems"(5,6) r(3,4) by auto
  have s: "set (?ids @ (q @ new)) = vset vis'"
    using "2.prems"(6) r(5) by auto
  have c: "\<forall>x \<in> set ?ids. nbrs a x \<subseteq> vset vis'"
    using "2.prems"(7) r(5,6) by (auto simp: nbrs_def)
  have res: "result @ [names ! u] = map (nth names) ?ids"
    using "2.prems"(8) by simp
  have lv': "length vis' = n" using r(2) lv by simp
  from "2.hyps"[OF _ r(1) refl a lv' d s c res] u a(1,2)
  obtain ids' where
    i: "bfs_loop a names (vis', q @ new, result @ [names ! u]) = Some (map (nth names) ids')"
       "distinct ids'" "set ?ids \<union> set (q @ new) \<subseteq> set ids'"
       "\<forall>x \<in> set ids'. x < n \<and> nbrs a x \<subseteq> set ids'" by auto
  have "bfs_loop a names (visited, u # q, result)
          = bfs_loop a names (vis', q @ new, result @ [names ! u])"
    using u a(1,2) r(1) by simp
  with i show ?case by (intro exI[of _ ids']) auto
qed


text \<open>What a call of \<^verbatim>\<open>DFSHelper\<close>, or a run of its loop, returns: the names of the nodes
  it has marked, once each, appended to \<^verbatim>\<open>result\<close>; every node it has marked has all its
  neighbours marked; and the nodes of \<open>S\<close> are marked.\<close>

definition dfs_post :: "(nat \<times> int) list list \<Rightarrow> string list \<Rightarrow> bool list \<Rightarrow> string list
    \<Rightarrow> nat set \<Rightarrow> (bool list \<times> string list) option \<Rightarrow> bool" where
  "dfs_post a names vis res S r =
     (\<exists>vis' ids. r = Some (vis', res @ map (nth names) ids) \<and> length vis' = length vis \<and>
        distinct ids \<and> set ids = vset vis' - vset vis \<and> vset vis \<subseteq> vset vis' \<and>
        S \<subseteq> vset vis' \<and> (\<forall>x \<in> set ids. nbrs a x \<subseteq> vset vis'))"

definition nodes_ok :: "(nat \<times> int) list \<Rightarrow> nat \<Rightarrow> bool" where
  "nodes_ok es n = (\<forall>e \<in> set es. fst e < n)"

definition adj_ok :: "(nat \<times> int) list list \<Rightarrow> nat \<Rightarrow> bool" where
  "adj_ok a n = (\<forall>es \<in> set a. nodes_ok es n)"

lemma adj_ok_nth: "adj_ok a n \<Longrightarrow> u < length a \<Longrightarrow> nodes_ok (a ! u) n"
  by (simp add: adj_ok_def)

lemma nodes_ok_Cons: "nodes_ok ((v, w) # es) n \<longleftrightarrow> v < n \<and> nodes_ok es n"
  by (simp add: nodes_ok_def)

lemma DFSHelper_step:
  assumes c: "u < length vis" "u < length names" "u < length a" and nv: "\<not> vis ! u"
    and IH: "dfs_post a names (vis[u := True]) (res @ [names ! u]) (fst ` set (a ! u))
               (DFSHelper_edges a names (a ! u) (vis[u := True], res @ [names ! u]))"
  shows "dfs_post a names vis res {u} (DFSHelper a names u (vis, res))"
proof -
  let ?vis = "vis[u := True]" and ?res = "res @ [names ! u]"
  from IH obtain vis' ids where
    r: "DFSHelper_edges a names (a ! u) (?vis, ?res) = Some (vis', ?res @ map (nth names) ids)"
       "length vis' = length ?vis" "distinct ids" "set ids = vset vis' - vset ?vis"
       "vset ?vis \<subseteq> vset vis'" "fst ` set (a ! u) \<subseteq> vset vis'"
       "\<forall>x \<in> set ids. nbrs a x \<subseteq> vset vis'"
    unfolding dfs_post_def by (elim exE conjE)
  have vs: "vset ?vis = insert u (vset vis)" by (rule vset_update[OF c(1)])
  have nu: "u \<notin> vset vis" using nv by (simp add: vset_def)
  have 1: "DFSHelper a names u (vis, res) = Some (vis', res @ map (nth names) (u # ids))"
    using c r(1) by simp
  have 2: "length vis' = length vis" using r(2) by simp
  have 3: "distinct (u # ids)" using r(3,4) vs by auto
  have 4: "set (u # ids) = vset vis' - vset vis" using r(4,5) vs nu by auto
  have 5: "vset vis \<subseteq> vset vis'" "{u} \<subseteq> vset vis'" using r(5) vs by auto
  have "nbrs a u \<subseteq> vset vis'" using r(6) by (simp add: nbrs_def)
  with r(7) have 6: "\<forall>x \<in> set (u # ids). nbrs a x \<subseteq> vset vis'" by simp
  show ?thesis
    unfolding dfs_post_def 1
    by (rule exI[of _ vis'], rule exI[of _ "u # ids"]) (intro conjI refl 2 3 4 5 6)
qed

lemma DFSHelper_edges_skip:
  assumes "v < length vis" "vis ! v"
    and IH: "dfs_post a names vis res (fst ` set es) (DFSHelper_edges a names es (vis, res))"
  shows "dfs_post a names vis res (fst ` set ((v, w) # es))
           (DFSHelper_edges a names ((v, w) # es) (vis, res))"
proof -
  from IH obtain vis' ids where
    r: "DFSHelper_edges a names es (vis, res) = Some (vis', res @ map (nth names) ids)"
       "length vis' = length vis" "distinct ids" "set ids = vset vis' - vset vis"
       "vset vis \<subseteq> vset vis'" "fst ` set es \<subseteq> vset vis'"
       "\<forall>x \<in> set ids. nbrs a x \<subseteq> vset vis'"
    unfolding dfs_post_def by (elim exE conjE)
  from assms(1,2) have "v \<in> vset vis" by (simp add: vset_def)
  with r(5,6) have 1: "fst ` set ((v, w) # es) \<subseteq> vset vis'" by auto
  have 2: "DFSHelper_edges a names ((v, w) # es) (vis, res)
                   = Some (vis', res @ map (nth names) ids)"
    using assms(1,2) r(1) by simp
  show ?thesis
    unfolding dfs_post_def 2
    by (rule exI[of _ vis'], rule exI[of _ ids]) (intro conjI refl r(2,3,4,5,7) 1)
qed

lemma DFSHelper_edges_call:
  assumes "v < length vis" "\<not> vis ! v"
    and IH1: "dfs_post a names vis res {v} (DFSHelper a names v (vis, res))"
    and IH2: "\<And>vis1 res1. DFSHelper a names v (vis, res) = Some (vis1, res1) \<Longrightarrow>
                length vis1 = length vis \<Longrightarrow>
                dfs_post a names vis1 res1 (fst ` set es) (DFSHelper_edges a names es (vis1, res1))"
  shows "dfs_post a names vis res (fst ` set ((v, w) # es))
           (DFSHelper_edges a names ((v, w) # es) (vis, res))"
proof -
  from IH1 obtain vis1 ids1 where
    r1: "DFSHelper a names v (vis, res) = Some (vis1, res @ map (nth names) ids1)"
        "length vis1 = length vis" "distinct ids1" "set ids1 = vset vis1 - vset vis"
        "vset vis \<subseteq> vset vis1" "{v} \<subseteq> vset vis1"
        "\<forall>x \<in> set ids1. nbrs a x \<subseteq> vset vis1"
    unfolding dfs_post_def by (elim exE conjE)
  let ?res1 = "res @ map (nth names) ids1"
  from IH2[OF r1(1,2)] obtain vis' ids2 where
    r2: "DFSHelper_edges a names es (vis1, ?res1) = Some (vis', ?res1 @ map (nth names) ids2)"
        "length vis' = length vis1" "distinct ids2" "set ids2 = vset vis' - vset vis1"
        "vset vis1 \<subseteq> vset vis'" "fst ` set es \<subseteq> vset vis'"
        "\<forall>x \<in> set ids2. nbrs a x \<subseteq> vset vis'"
    unfolding dfs_post_def by (elim exE conjE)
  have 1: "DFSHelper_edges a names ((v, w) # es) (vis, res)
          = Some (vis', res @ map (nth names) (ids1 @ ids2))"
    using assms(1,2) r1(1) r2(1) by simp
  have 2: "length vis' = length vis" using r1(2) r2(2) by simp
  have "set ids1 \<inter> set ids2 = {}" unfolding r1(4) r2(4) by blast
  with r1(3) r2(3) have 3: "distinct (ids1 @ ids2)" by simp
  have 4: "set (ids1 @ ids2) = vset vis' - vset vis"
    unfolding set_append r1(4) r2(4) using r1(5) r2(5) by blast
  have 5: "vset vis \<subseteq> vset vis'" using r1(5) r2(5) by blast
  have "v \<in> vset vis'" using r1(6) r2(5) by blast
  with r2(6) have 6: "fst ` set ((v, w) # es) \<subseteq> vset vis'" by simp
  have "\<forall>x \<in> set ids1. nbrs a x \<subseteq> vset vis'" using r1(7) r2(5) by blast
  with r2(7) have 7: "\<forall>x \<in> set (ids1 @ ids2). nbrs a x \<subseteq> vset vis'" by auto
  show ?thesis
    unfolding dfs_post_def 1
    by (rule exI[of _ vis'], rule exI[of _ "ids1 @ ids2"]) (intro conjI refl 2 3 4 5 6 7)
qed

lemma DFSHelper_edges_Nil:
  "dfs_post a names (fst s) (snd s) (fst ` set []) (DFSHelper_edges a names [] s)"
  unfolding dfs_post_def
  by (rule exI[of _ "fst s"], rule exI[of _ "[]"]) simp


lemma DFSHelper_spec:
  "length a = length names \<longrightarrow> adj_ok a (length names) \<longrightarrow>
     length (fst s) = length names \<longrightarrow> u < length names \<longrightarrow> \<not> fst s ! u \<longrightarrow>
     dfs_post a names (fst s) (snd s) {u} (DFSHelper a names u s)"
  "length a = length names \<longrightarrow> adj_ok a (length names) \<longrightarrow>
     length (fst s) = length names \<longrightarrow> nodes_ok es (length names) \<longrightarrow>
     dfs_post a names (fst s) (snd s) (fst ` set es) (DFSHelper_edges a names es s)"
proof (induct a names u s and a names es s rule: DFSHelper_DFSHelper_edges.induct)
  case (1 a names u vis res)
  show ?case
  proof (intro impI)
    assume la: "length a = length names" and b: "adj_ok a (length names)"
      and lv: "length (fst (vis, res)) = length names" and u: "u < length names"
      and nv: "\<not> fst (vis, res) ! u"
    have c: "u < length vis" "u < length names" "u < length a" using u lv la by simp_all
    have c': "u < length vis \<and> u < length names \<and> u < length a" using c by simp
    have bu: "nodes_ok (a ! u) (length names)" by (rule adj_ok_nth[OF b c(3)])
    have lv1: "length (fst (vis[u := True], res @ [names ! u])) = length names" using lv by simp
    from "1.hyps"[OF c', THEN mp, OF la, THEN mp, OF b, THEN mp, OF lv1, THEN mp, OF bu]
    have IH: "dfs_post a names (vis[u := True]) (res @ [names ! u]) (fst ` set (a ! u))
            (DFSHelper_edges a names (a ! u) (vis[u := True], res @ [names ! u]))"
      unfolding fst_conv snd_conv .
    from nv have nv': "\<not> vis ! u" unfolding fst_conv .
    show "dfs_post a names (fst (vis, res)) (snd (vis, res)) {u} (DFSHelper a names u (vis, res))"
      unfolding fst_conv snd_conv by (rule DFSHelper_step[OF c nv' IH])
  qed
next
  case (2 a names s)
  show ?case by (intro impI) (rule DFSHelper_edges_Nil)
next
  case (3 a names v w es vis res)
  show ?case
  proof (intro impI)
    assume la: "length a = length names" and b: "adj_ok a (length names)"
      and lv0: "length (fst (vis, res)) = length names"
      and be: "nodes_ok ((v, w) # es) (length names)"
    from lv0 have lv: "length vis = length names" unfolding fst_conv .
    from be have v: "v < length names" and bes: "nodes_ok es (length names)"
      by (simp_all add: nodes_ok_Cons)
    have vl: "v < length vis" using v lv by simp
    have "dfs_post a names vis res (fst ` set ((v, w) # es))
            (DFSHelper_edges a names ((v, w) # es) (vis, res))"
    proof (cases "vis ! v")
      case True
      then have nn: "\<not> \<not> vis ! v" by simp
      from "3.hyps"(3)[OF vl nn, THEN mp, OF la, THEN mp, OF b, THEN mp, OF lv0, THEN mp, OF bes]
      have "dfs_post a names vis res (fst ` set es) (DFSHelper_edges a names es (vis, res))"
        unfolding fst_conv snd_conv .
      from DFSHelper_edges_skip[OF vl True this] show ?thesis .
    next
      case False
      have nv: "\<not> fst (vis, res) ! v" using False by simp
      from "3.hyps"(1)[OF vl False, THEN mp, OF la, THEN mp, OF b, THEN mp, OF lv0, THEN mp, OF v,
          THEN mp, OF nv]
      have IH1: "dfs_post a names vis res {v} (DFSHelper a names v (vis, res))"
        unfolding fst_conv snd_conv .
      have IH2: "dfs_post a names vis1 res1 (fst ` set es) (DFSHelper_edges a names es (vis1, res1))"
        if h: "DFSHelper a names v (vis, res) = Some (vis1, res1)" and l: "length vis1 = length vis"
        for vis1 res1
      proof -
        have lv1: "length (fst (vis1, res1)) = length names" using l lv by simp
        from "3.hyps"(2)[OF vl False h, THEN mp, OF la, THEN mp, OF b, THEN mp, OF lv1,
            THEN mp, OF bes]
        show ?thesis unfolding fst_conv snd_conv .
      qed
      from DFSHelper_edges_call[OF vl False IH1 IH2] show ?thesis .
    qed
    then show "dfs_post a names (fst (vis, res)) (snd (vis, res)) (fst ` set ((v, w) # es))
            (DFSHelper_edges a names ((v, w) # es) (vis, res))"
      unfolding fst_conv snd_conv .
  qed
qed

text \<open>A list of node ids without repetition that contains the start and, with every node,
  its neighbours, lists every node of a connected graph once; so do the names.\<close>

lemma all_names_once:
  assumes "graph_inv g" "connected g" "i < length (nodeToName g)"
    and "distinct ids" "i \<in> set ids"
        "\<forall>x \<in> set ids. x < length (nodeToName g) \<and> nbrs (adj g) x \<subseteq> set ids"
  shows "distinct (map (nth (nodeToName g)) ids) \<and>
         set (map (nth (nodeToName g)) ids) = set (nodeToName g)"
proof -
  let ?n = "length (nodeToName g)"
  have cl: "\<forall>x \<in> set ids. nbrs (adj g) x \<subseteq> set ids" using assms(6) by blast
  have all: "set ids = {..<?n}"
  proof
    show "set ids \<subseteq> {..<?n}" using assms(6) by auto
    show "{..<?n} \<subseteq> set ids"
    proof
      fix v assume "v \<in> {..<?n}"
      with assms(2,3) have "(i, v) \<in> (edge_rel (adj g))\<^sup>*" by (simp add: connected_def)
      from closed_reachable[OF this assms(5) cl] show "v \<in> set ids" .
    qed
  qed
  have dn: "distinct (nodeToName g)" by (rule distinct_names[OF assms(1)])
  have "inj_on (nth (nodeToName g)) (set ids)"
    unfolding all using dn by (auto simp: inj_on_def nth_eq_iff_index_eq)
  with assms(4) have "distinct (map (nth (nodeToName g)) ids)" by (simp add: distinct_map)
  moreover have "set (map (nth (nodeToName g)) ids) = set (nodeToName g)"
    unfolding set_map all by (auto simp: set_conv_nth)
  ultimately show ?thesis by simp
qed

lemma BFS_connected:
  assumes "graph_inv g" "connected g" "hasLocation g start"
  shows "\<exists>r. BFS g start = Some r \<and> distinct r \<and> set r = set (nodeToName g)"
proof -
  let ?n = "length (nodeToName g)"
  from assms(1,3) obtain i where i: "i < ?n" "toLower (nodeToName g ! i) = toLower start"
    by (auto simp: hasLocation_iff)
  from resolve_existing(3)[OF assms(1) i]
  have st: "node_of g (getActualLocationName g start) = i" by (simp add: resolve_def)
  from assms(1) have la: "length (adj g) = ?n"
    and b: "\<forall>es \<in> set (adj g). \<forall>e \<in> set es. fst e < ?n"
    by (simp_all add: graph_inv_def)
  let ?vis = "(replicate ?n False)[i := True]"
  have vs: "vset ?vis = {i}" using vset_update[of i "replicate ?n False"] i(1)
    by (simp add: vset_replicate)
  have lv: "length ?vis = ?n" by simp
  have p: "distinct ([] @ [i])" "set ([] @ [i]) = vset ?vis"
    "\<forall>x \<in> set ([] :: nat list). nbrs (adj g) x \<subseteq> vset ?vis"
    "[] = map (nth (nodeToName g)) []"
    using vs by simp_all
  from bfs_loop_spec[OF la refl b lv p]
  obtain ids where
    r: "bfs_loop (adj g) (nodeToName g) (?vis, [i], []) = Some (map (nth (nodeToName g)) ids)"
       "distinct ids" "set [] \<union> set [i] \<subseteq> set ids"
       "\<forall>x \<in> set ids. x < ?n \<and> nbrs (adj g) x \<subseteq> set ids"
    by (elim exE conjE)
  from r(3) have mem: "i \<in> set ids" by simp
  have "BFS g start = Some (map (nth (nodeToName g)) ids)"
    using assms(3) st i(1) r(1) by (simp add: BFS_def Let_def)
  with all_names_once[OF assms(1,2) i(1) r(2) mem r(4)] show ?thesis by simp
qed

lemma DFS_connected:
  assumes "graph_inv g" "connected g" "hasLocation g start"
  shows "\<exists>r. DFS g start = Some r \<and> distinct r \<and> set r = set (nodeToName g)"
proof -
  let ?n = "length (nodeToName g)"
  from assms(1,3) obtain i where i: "i < ?n" "toLower (nodeToName g ! i) = toLower start"
    by (auto simp: hasLocation_iff)
  from resolve_existing(3)[OF assms(1) i]
  have st: "node_of g (getActualLocationName g start) = i" by (simp add: resolve_def)
  from assms(1) have la: "length (adj g) = ?n"
    and b: "\<forall>es \<in> set (adj g). \<forall>e \<in> set es. fst e < ?n"
    by (simp_all add: graph_inv_def)
  let ?vis = "replicate ?n False"
  have ok: "adj_ok (adj g) ?n" using b by (simp add: adj_ok_def nodes_ok_def)
  have lv: "length (fst (?vis, [] :: string list)) = ?n" by simp
  have nv: "\<not> fst (?vis, [] :: string list) ! i" using i(1) by simp
  from DFSHelper_spec(1)[of "adj g" "nodeToName g" "(?vis, [])" i, THEN mp, OF la, THEN mp, OF ok,
      THEN mp, OF lv, THEN mp, OF i(1), THEN mp, OF nv]
  have "dfs_post (adj g) (nodeToName g) ?vis [] {i}
          (DFSHelper (adj g) (nodeToName g) i (?vis, []))"
    unfolding fst_conv snd_conv .
  then obtain vis' ids where
    r: "DFSHelper (adj g) (nodeToName g) i (?vis, []) = Some (vis', [] @ map (nth (nodeToName g)) ids)"
       "length vis' = length ?vis" "distinct ids" "set ids = vset vis' - vset ?vis"
       "{i} \<subseteq> vset vis'"
       "\<forall>x \<in> set ids. nbrs (adj g) x \<subseteq> vset vis'"
    unfolding dfs_post_def by (elim exE conjE)
  from r(4) have si: "set ids = vset vis'" by (simp add: vset_replicate)
  from r(5) si have mem: "i \<in> set ids" by simp
  have c: "\<forall>x \<in> set ids. x < ?n \<and> nbrs (adj g) x \<subseteq> set ids"
  proof
    fix x assume x: "x \<in> set ids"
    with si have "x \<in> vset vis'" by simp
    from vset_less[OF this] r(2) have "x < ?n" by simp
    moreover from r(6) x si have "nbrs (adj g) x \<subseteq> set ids" by simp
    ultimately show "x < ?n \<and> nbrs (adj g) x \<subseteq> set ids" by simp
  qed
  have "DFS g start = Some (map (nth (nodeToName g)) ids)"
    using assms(3) st r(1) by (simp add: DFS_def Let_def)
  with all_names_once[OF assms(1,2) i(1) r(3) mem c] show ?thesis by simp
qed


text \<open>
  Claim C9. On every graph state that is connected, and for every start name that resolves
  to an existing location, \<open>BFS(start)\<close> and \<open>DFS(start)\<close> both return, with a sequence
  that contains every location of the graph exactly once; if the start name resolves to no
  location, both return the empty sequence.
\<close>
theorem traversals_visit_all:
  "\<exists>g. run_graph empty_graph ops = Some g \<and>
     (connected g \<and> hasLocation g start \<longrightarrow>
        (\<exists>r. BFS g start = Some r \<and> distinct r \<and> set r = set (nodeToName g)) \<and>
        (\<exists>r. DFS g start = Some r \<and> distinct r \<and> set r = set (nodeToName g))) \<and>
     (\<not> hasLocation g start \<longrightarrow> BFS g start = Some [] \<and> DFS g start = Some [])"
proof -
  from reachable_graph[of ops] obtain g where g: "run_graph empty_graph ops = Some g" "graph_inv g"
    by (auto simp: edges_inv_def)
  have 1: "connected g \<and> hasLocation g start \<longrightarrow>
        (\<exists>r. BFS g start = Some r \<and> distinct r \<and> set r = set (nodeToName g)) \<and>
        (\<exists>r. DFS g start = Some r \<and> distinct r \<and> set r = set (nodeToName g))"
    using BFS_connected[OF g(2)] DFS_connected[OF g(2)] by blast
  have 2: "\<not> hasLocation g start \<longrightarrow> BFS g start = Some [] \<and> DFS g start = Some []"
    by (simp add: BFS_def DFS_def)
  from g(1) 1 2 show ?thesis by blast
qed

theorem traversals_visit_all_witness:
  "run_graph empty_graph [AddEdge ''A'' ''B'' 3, AddEdge ''B'' ''C'' 4]
     = Some \<lparr>nameToNode = [(''A'', 0), (''B'', 1), (''C'', 2)], nodeToName = [''A'', ''B'', ''C''],
             adj = [[(1, 3)], [(0, 3), (2, 4)], [(1, 4)]]\<rparr>
   \<and> connected \<lparr>nameToNode = [(''A'', 0), (''B'', 1), (''C'', 2)], nodeToName = [''A'', ''B'', ''C''],
             adj = [[(1, 3)], [(0, 3), (2, 4)], [(1, 4)]]\<rparr>
   \<and> hasLocation \<lparr>nameToNode = [(''A'', 0), (''B'', 1), (''C'', 2)], nodeToName = [''A'', ''B'', ''C''],
             adj = [[(1, 3)], [(0, 3), (2, 4)], [(1, 4)]]\<rparr> ''c''
   \<and> BFS \<lparr>nameToNode = [(''A'', 0), (''B'', 1), (''C'', 2)], nodeToName = [''A'', ''B'', ''C''],
             adj = [[(1, 3)], [(0, 3), (2, 4)], [(1, 4)]]\<rparr> ''c'' = Some [''C'', ''B'', ''A'']
   \<and> DFS \<lparr>nameToNode = [(''A'', 0), (''B'', 1), (''C'', 2)], nodeToName = [''A'', ''B'', ''C''],
             adj = [[(1, 3)], [(0, 3), (2, 4)], [(1, 4)]]\<rparr> ''c'' = Some [''C'', ''B'', ''A'']
   \<and> distinct [''C'', ''B'', ''A''] \<and> set [''C'', ''B'', ''A''] = set [''A'', ''B'', ''C'']
   \<and> \<not> hasLocation \<lparr>nameToNode = [(''A'', 0), (''B'', 1), (''C'', 2)], nodeToName = [''A'', ''B'', ''C''],
             adj = [[(1, 3)], [(0, 3), (2, 4)], [(1, 4)]]\<rparr> ''Pune''
   \<and> BFS \<lparr>nameToNode = [(''A'', 0), (''B'', 1), (''C'', 2)], nodeToName = [''A'', ''B'', ''C''],
             adj = [[(1, 3)], [(0, 3), (2, 4)], [(1, 4)]]\<rparr> ''Pune'' = Some []
   \<and> DFS \<lparr>nameToNode = [(''A'', 0), (''B'', 1), (''C'', 2)], nodeToName = [''A'', ''B'', ''C''],
             adj = [[(1, 3)], [(0, 3), (2, 4)], [(1, 4)]]\<rparr> ''Pune'' = Some []"
proof -
  let ?ops = "[AddEdge ''A'' ''B'' 3, AddEdge ''B'' ''C'' 4]"
  let ?a = "[[(1, 3)], [(0, 3), (2, 4)], [(1 :: nat, 4 :: int)]]"
  let ?g = "\<lparr>nameToNode = [(''A'', 0), (''B'', 1), (''C'', 2)], nodeToName = [''A'', ''B'', ''C''],
             adj = ?a\<rparr>"
  have 1: "run_graph empty_graph ?ops = Some ?g" by code_simp
  have e: "(0, 1) \<in> edge_rel ?a" "(1, 0) \<in> edge_rel ?a" "(1, 2) \<in> edge_rel ?a" "(2, 1) \<in> edge_rel ?a"
    by (simp_all add: edge_rel_def nbrs_def)
  have to1: "(u, 1) \<in> (edge_rel ?a)\<^sup>*" if "u < 3" for u
  proof -
    from that consider "u = 0" | "u = 1" | "u = 2" by linarith
    then show ?thesis using e by cases auto
  qed
  have from1: "(1, v) \<in> (edge_rel ?a)\<^sup>*" if "v < 3" for v
  proof -
    from that consider "v = 0" | "v = 1" | "v = 2" by linarith
    then show ?thesis using e by cases auto
  qed
  have 2: "connected ?g"
    unfolding connected_def
  proof (intro allI impI)
    fix u v assume "u < length (nodeToName ?g)" "v < length (nodeToName ?g)"
    then have "u < 3" "v < 3" by simp_all
    from to1[OF this(1)] from1[OF this(2)] show "(u, v) \<in> (edge_rel (adj ?g))\<^sup>*" by simp
  qed
  have 3: "hasLocation ?g ''c''" by code_simp
  have 4: "BFS ?g ''c'' = Some [''C'', ''B'', ''A'']" by code_simp
  have 5: "DFS ?g ''c'' = Some [''C'', ''B'', ''A'']" by code_simp
  have 6: "\<not> hasLocation ?g ''Pune''" by code_simp
  from traversals_visit_all[of ?ops "''c''", unfolded 1]
  obtain g where o: "Some ?g = Some g"
    "connected g \<and> hasLocation g ''c'' \<longrightarrow>
        (\<exists>r. BFS g ''c'' = Some r \<and> distinct r \<and> set r = set (nodeToName g)) \<and>
        (\<exists>r. DFS g ''c'' = Some r \<and> distinct r \<and> set r = set (nodeToName g))"
    by (elim exE conjE)
  from o(1) have g: "g = ?g" by simp
  from o(2)[unfolded g, THEN mp, OF conjI[OF 2 3], THEN conjunct1]
  obtain r where r: "BFS ?g ''c'' = Some r" "distinct r" "set r = set (nodeToName ?g)"
    by (elim exE conjE)
  from r(1) 4 have "r = [''C'', ''B'', ''A'']" by simp
  with r(2,3) have 7: "distinct [''C'', ''B'', ''A'']" "set [''C'', ''B'', ''A''] = set [''A'', ''B'', ''C'']"
    by simp_all
  from traversals_visit_all[of ?ops "''Pune''", unfolded 1]
  obtain g' where o': "Some ?g = Some g'"
    "\<not> hasLocation g' ''Pune'' \<longrightarrow> BFS g' ''Pune'' = Some [] \<and> DFS g' ''Pune'' = Some []"
    by (elim exE conjE)
  from o'(1) have g': "g' = ?g" by simp
  from o'(2)[unfolded g', THEN mp, OF 6]
  have 8: "BFS ?g ''Pune'' = Some []" "DFS ?g ''Pune'' = Some []" by simp_all
  show ?thesis by (intro conjI 1 2 3 4 5 6 7 8)
qed

end
